theory Spec2Isabelle
  imports Main "HOL-Library.Word"
begin

unbundle bit_operations_syntax

section \<open>Common types\<close>

text \<open>
  A pointer is the number it holds; \<open>0\<close> is \<open>NULL\<close>.  A buffer \<open>(data, len)\<close> of the C code
  is the list of its \<open>len\<close> bytes.  A function that walks a linked structure takes fuel:
  it answers \<open>Timeout\<close> when the fuel is used up before the C loop leaves, and \<open>Fault\<close>
  when the C code would read through a pointer that addresses no live object.  The state
  reached so far is returned next to the answer.
\<close>

type_synonym addr = nat
type_synonym byte = "8 word"

datatype 'a run = Done 'a | Timeout | Fault

section \<open>Protocol dispatcher (net.c, the file src/unnamed/part_001)\<close>

text \<open>\<open>struct net_protocol_queue_entry\<close>: the device, the length and the copied bytes.\<close>

record net_protocol_queue_entry =
  qe_dev :: addr
  qe_len :: nat
  qe_data :: "byte list"

text \<open>
  \<open>struct net_protocol\<close>.  The \<open>queue_head\<close> is the list of the queued entry pointers,
  oldest first.  The handler is a function pointer, kept as the number that names it.
\<close>

record net_protocol =
  proto_next :: addr
  proto_type :: "16 word"
  queue :: "addr list"
  handler :: nat

text \<open>
  The file-static \<open>protocols\<close> head with the objects it reaches, the live queue entries,
  the number of \<open>intr_raise_irq(INTR_IRQ_SOFTIRQ)\<close> calls made so far, and the log of the
  upper-layer handler invocations \<open>(handler, data, len, dev)\<close> in the order they were made.
\<close>

record net_state =
  protocols :: addr
  proto_heap :: "addr \<rightharpoonup> net_protocol"
  entry_heap :: "addr \<rightharpoonup> net_protocol_queue_entry"
  softirq_raised :: nat
  handled :: "(nat \<times> byte list \<times> nat \<times> addr) list"

definition net_init_state :: net_state where
  "net_init_state =
     \<lparr>protocols = 0, proto_heap = Map.empty, entry_heap = Map.empty,
      softirq_raised = 0, handled = []\<rparr>"

text \<open>
  Modelled from the spec: \<open>queue_push\<close> and \<open>queue_pop\<close> of the generic linked-queue
  primitive (util.c) are not in the sources.  The queue is first-in first-out: a push
  appends at the tail and may fail (it allocates a node), a pop takes the head or gives
  \<open>NULL\<close> on an empty queue.
\<close>

definition queue_push :: "addr list \<Rightarrow> addr \<Rightarrow> bool \<Rightarrow> addr list option" where
  "queue_push q e ok = (if ok then Some (q @ [e]) else None)"

definition queue_pop :: "addr list \<Rightarrow> addr \<times> addr list" where
  "queue_pop q = (case q of [] \<Rightarrow> (0, []) | e # rest \<Rightarrow> (e, rest))"

text \<open>
  The duplicate search of \<open>net_protocol_register\<close>:
  \<^verbatim>\<open>for (proto = protocols; proto; proto = proto->next) if (type == proto->next) ...\<close>
  The comparison is between the promoted 16-bit type and the pointer \<open>proto->next\<close>.
  \<open>Done True\<close> is the early \<open>return -1\<close>.
\<close>

fun net_protocol_register_loop :: "nat \<Rightarrow> addr \<Rightarrow> 16 word \<Rightarrow> net_state \<Rightarrow> bool run" where
  "net_protocol_register_loop 0 p ty s = Timeout"
| "net_protocol_register_loop (Suc n) p ty s =
     (if p = 0 then Done False
      else case proto_heap s p of
        None \<Rightarrow> Fault
      | Some pr \<Rightarrow>
          if unat ty = proto_next pr then Done True
          else net_protocol_register_loop n (proto_next pr) ty s)"

text \<open>
  \<open>net_protocol_register(type, handler)\<close>; \<open>a\<close> is what \<open>memory_alloc\<close> returns when it is
  reached (zeroed memory, so the queue of the new entry is empty).  The new entry's
  \<open>next\<close> is set to the entry itself: line 74 is \<^verbatim>\<open>proto->next = proto;\<close>.
\<close>

definition net_protocol_register ::
  "nat \<Rightarrow> 16 word \<Rightarrow> nat \<Rightarrow> addr \<Rightarrow> net_state \<Rightarrow> int run \<times> net_state" where
  "net_protocol_register fuel ty h a s =
     (case net_protocol_register_loop fuel (protocols s) ty s of
        Timeout \<Rightarrow> (Timeout, s)
      | Fault \<Rightarrow> (Fault, s)
      | Done True \<Rightarrow> (Done (- 1), s)
      | Done False \<Rightarrow>
          if a = 0 then (Done (- 1), s)
          else (Done 0,
                s\<lparr>proto_heap := (proto_heap s)
                     (a \<mapsto> \<lparr>proto_next = a, proto_type = ty, queue = [], handler = h\<rparr>),
                  protocols := a\<rparr>))"

text \<open>
  \<open>net_input_handler(type, data, len, dev)\<close>, the loop from \<open>proto\<close> on.  \<open>e\<close> is what
  \<open>memory_alloc\<close> returns when it is reached and \<open>push_ok\<close> says whether \<open>queue_push\<close>
  then succeeds.
\<close>

fun net_input_handler_loop ::
  "nat \<Rightarrow> addr \<Rightarrow> 16 word \<Rightarrow> byte list \<Rightarrow> addr \<Rightarrow> addr \<Rightarrow> bool \<Rightarrow> net_state
     \<Rightarrow> int run \<times> net_state" where
  "net_input_handler_loop 0 p ty dat dv e push_ok s = (Timeout, s)"
| "net_input_handler_loop (Suc n) p ty dat dv e push_ok s =
     (if p = 0 then (Done 0, s)
      else case proto_heap s p of
        None \<Rightarrow> (Fault, s)
      | Some pr \<Rightarrow>
          if proto_type pr = ty then
            (if e = 0 then (Done (- 1), s)
             else
               let s1 = s\<lparr>entry_heap := (entry_heap s)
                            (e \<mapsto> \<lparr>qe_dev = dv, qe_len = length dat, qe_data = dat\<rparr>)\<rparr>
               in case queue_push (queue pr) e push_ok of
                    None \<Rightarrow> (Done (- 1), s1\<lparr>entry_heap := (entry_heap s1)(e := None)\<rparr>)
                  | Some q \<Rightarrow>
                      (Done 0,
                       s1\<lparr>proto_heap := (proto_heap s1)(p \<mapsto> pr\<lparr>queue := q\<rparr>),
                          softirq_raised := Suc (softirq_raised s1)\<rparr>))
          else net_input_handler_loop n (proto_next pr) ty dat dv e push_ok s)"

definition net_input_handler ::
  "nat \<Rightarrow> 16 word \<Rightarrow> byte list \<Rightarrow> addr \<Rightarrow> addr \<Rightarrow> bool \<Rightarrow> net_state
     \<Rightarrow> int run \<times> net_state" where
  "net_input_handler fuel ty dat dv e push_ok s =
     net_input_handler_loop fuel (protocols s) ty dat dv e push_ok s"

text \<open>
  The inner \<open>while (1)\<close> of \<open>net_softirq_handler\<close> for the entry at \<open>p\<close>: pop, stop on
  \<open>NULL\<close>, call the handler with the entry's bytes, length and device, free the entry.
  \<open>False\<close> is a read through a dangling pointer.
\<close>

function net_softirq_drain :: "addr \<Rightarrow> net_state \<Rightarrow> bool \<times> net_state" where
  "net_softirq_drain p s =
     (case proto_heap s p of
        None \<Rightarrow> (False, s)
      | Some pr \<Rightarrow>
          (case queue_pop (queue pr) of (e, rest) \<Rightarrow>
             if e = 0 then (True, s)
             else
               (case entry_heap s e of
                  None \<Rightarrow> (False, s\<lparr>proto_heap := (proto_heap s)(p \<mapsto> pr\<lparr>queue := rest\<rparr>)\<rparr>)
                | Some en \<Rightarrow>
                    net_softirq_drain p
                      (s\<lparr>proto_heap := (proto_heap s)(p \<mapsto> pr\<lparr>queue := rest\<rparr>),
                         handled := handled s @ [(handler pr, qe_data en, qe_len en, qe_dev en)],
                         entry_heap := (entry_heap s)(e := None)\<rparr>))))"
  by pat_completeness auto
termination
  by (relation "measure (\<lambda>(p, s). case proto_heap s p of None \<Rightarrow> 0 | Some pr \<Rightarrow> length (queue pr))")
     (auto simp: queue_pop_def split: list.splits)

declare net_softirq_drain.simps [simp del]

text \<open>The outer \<open>for (proto = protocols; proto; proto = proto->next)\<close> of the drain.\<close>

fun net_softirq_handler_loop :: "nat \<Rightarrow> addr \<Rightarrow> net_state \<Rightarrow> int run \<times> net_state" where
  "net_softirq_handler_loop 0 p s = (Timeout, s)"
| "net_softirq_handler_loop (Suc n) p s =
     (if p = 0 then (Done 0, s)
      else case net_softirq_drain p s of
        (False, s') \<Rightarrow> (Fault, s')
      | (True, s') \<Rightarrow>
          (case proto_heap s' p of
             None \<Rightarrow> (Fault, s')
           | Some pr \<Rightarrow> net_softirq_handler_loop n (proto_next pr) s'))"

definition net_softirq_handler :: "nat \<Rightarrow> net_state \<Rightarrow> int run \<times> net_state" where
  "net_softirq_handler fuel s = net_softirq_handler_loop fuel (protocols s) s"

text \<open>
  A driver that calls \<open>net_input_handler\<close> for one type on each \<open>(data, dev)\<close> in turn;
  the third component of an input is the pointer \<open>memory_alloc\<close> gives that call, the
  fourth whether its \<open>queue_push\<close> succeeds.  It returns every call's answer.
\<close>

fun net_input_seq ::
  "nat \<Rightarrow> 16 word \<Rightarrow> (byte list \<times> addr \<times> addr \<times> bool) list \<Rightarrow> net_state
     \<Rightarrow> int run list \<times> net_state" where
  "net_input_seq fuel ty [] s = ([], s)"
| "net_input_seq fuel ty ((dat, dv, e, ok) # ins) s =
     (case net_input_handler fuel ty dat dv e ok s of
        (r, s') \<Rightarrow> (case net_input_seq fuel ty ins s' of (rs, s'') \<Rightarrow> (r # rs, s'')))"

text \<open>What an input of the driver leaves in the queue, and the pointer it was given.\<close>

fun entry_of :: "byte list \<times> addr \<times> addr \<times> bool \<Rightarrow> net_protocol_queue_entry" where
  "entry_of (dat, dv, e, ok) = \<lparr>qe_dev = dv, qe_len = length dat, qe_data = dat\<rparr>"

fun alloc_of :: "byte list \<times> addr \<times> addr \<times> bool \<Rightarrow> addr" where
  "alloc_of (dat, dv, e, ok) = e"

text \<open>
  The shape of the protocol list after a successful registration: the head \<open>a\<close> is the
  entry of type \<open>ty\<close> with handler \<open>h\<close> and queue \<open>q\<close>, and its \<open>next\<close> is \<open>a\<close> again.
\<close>

definition sole_proto :: "net_state \<Rightarrow> addr \<Rightarrow> 16 word \<Rightarrow> nat \<Rightarrow> addr list \<Rightarrow> bool" where
  "sole_proto s a ty h q \<longleftrightarrow>
     protocols s = a \<and> 0 < a \<and>
     proto_heap s a = Some \<lparr>proto_next = a, proto_type = ty, queue = q, handler = h\<rparr>"

section \<open>Interrupt subsystem (platform/linux/intr.c)\<close>

text \<open>
  \<open>struct irq_entry\<close>.  The IRQ list is kept as the list of its entries, newest first:
  \<open>intr_request_irq\<close> links every new entry in front of the old head.
\<close>

record irq_entry =
  irq_no :: "32 word"
  irq_handler :: nat
  irq_flags :: "32 word"
  irq_name :: string
  irq_dev :: addr

record intr_state =
  irqs :: "irq_entry list"
  sigmask :: "32 word set"

text \<open>
  Modelled from the spec: \<open>INTR_IRQ_SHARED\<close> is a macro of platform.h, which is not in
  the sources; the SHARED flag is one bit of the flags word, here the lowest.
\<close>

definition INTR_IRQ_SHARED :: "32 word" where
  "INTR_IRQ_SHARED = 0x0001"

text \<open>
  The conflict search of \<open>intr_request_irq\<close>; \<open>True\<close> is its \<open>return -1\<close>.  The test
  \<^verbatim>\<open>entry->flags ^ INTR_IRQ_SHARED || flags ^ INTR_IRQ_SHARED\<close> holds unless both
  flag words equal \<open>INTR_IRQ_SHARED\<close>.
\<close>

fun intr_request_irq_loop :: "irq_entry list \<Rightarrow> 32 word \<Rightarrow> 32 word \<Rightarrow> bool" where
  "intr_request_irq_loop [] irq fl = False"
| "intr_request_irq_loop (entry # rest) irq fl =
     (if irq_no entry = irq then
        (if irq_flags entry XOR INTR_IRQ_SHARED \<noteq> 0 \<or> fl XOR INTR_IRQ_SHARED \<noteq> 0 then True
         else intr_request_irq_loop rest irq fl)
      else intr_request_irq_loop rest irq fl)"

text \<open>
  \<open>intr_request_irq(irq, handler, flags, name, dev)\<close>; \<open>alloc_ok\<close> says whether
  \<open>memory_alloc\<close> succeeds when it is reached.  \<open>strncpy\<close> keeps at most 15 characters of
  the name.
\<close>

definition intr_request_irq ::
  "32 word \<Rightarrow> nat \<Rightarrow> 32 word \<Rightarrow> string \<Rightarrow> addr \<Rightarrow> bool \<Rightarrow> intr_state \<Rightarrow> int \<times> intr_state" where
  "intr_request_irq irq h fl name dv alloc_ok s =
     (if intr_request_irq_loop (irqs s) irq fl then (- 1, s)
      else if \<not> alloc_ok then (- 1, s)
      else (0, s\<lparr>irqs := \<lparr>irq_no = irq, irq_handler = h, irq_flags = fl,
                           irq_name = take 15 name, irq_dev = dv\<rparr> # irqs s,
                 sigmask := insert irq (sigmask s)\<rparr>))"

section \<open>IPv4 addresses (ip.c)\<close>

text \<open>
  \<open>ip_addr_t\<close> is a \<open>uint32_t\<close> holding the address in network byte order.  The host is
  little-endian (the spec's own example reads 127.0.0.1 as \<open>0x0100007F\<close>), so byte \<open>i\<close> of
  the object is bits \<open>8i .. 8i+7\<close> of the number.
\<close>

type_synonym ip_addr_t = "32 word"

definition IP_ADDR_ANY :: ip_addr_t where
  "IP_ADDR_ANY = 0x00000000"

definition IP_ADDR_BROADCAST :: ip_addr_t where
  "IP_ADDR_BROADCAST = 0xffffffff"

definition addr_of_bytes :: "byte list \<Rightarrow> ip_addr_t" where
  "addr_of_bytes bs = foldr (\<lambda>b w. ucast b OR push_bit 8 w) bs 0"

text \<open>
  \<open>strtol(nptr, &endptr, 10)\<close> of the C library on an LP64 host: white space is skipped,
  one sign is taken, then the longest run of decimal digits; the value is clamped to the
  range of \<open>long\<close>.  With no digit there is no conversion: the value is 0 and \<open>endptr\<close> is
  \<open>nptr\<close>.  A C string is the list of its characters before the terminating NUL; the
  second component is the string \<open>endptr\<close> points to.
\<close>

definition isspace :: "char \<Rightarrow> bool" where
  "isspace c \<longleftrightarrow>
     c = CHR '' '' \<or> c = CHR 0x09 \<or> c = CHR 0x0A \<or> c = CHR 0x0B \<or> c = CHR 0x0C \<or> c = CHR 0x0D"

definition isdigit :: "char \<Rightarrow> bool" where
  "isdigit c \<longleftrightarrow> 48 \<le> (of_char c :: nat) \<and> (of_char c :: nat) \<le> 57"

definition digit_value :: "char \<Rightarrow> int" where
  "digit_value c = int (of_char c) - 48"

definition LONG_MAX :: int where
  "LONG_MAX = 2 ^ 63 - 1"

definition LONG_MIN :: int where
  "LONG_MIN = - (2 ^ 63)"

fun strtol_digits :: "int \<Rightarrow> string \<Rightarrow> int \<times> string" where
  "strtol_digits acc [] = (acc, [])"
| "strtol_digits acc (c # cs) =
     (if isdigit c then strtol_digits (10 * acc + digit_value c) cs else (acc, c # cs))"

definition strtol :: "string \<Rightarrow> int \<times> string" where
  "strtol nptr =
     (let s = dropWhile isspace nptr;
          neg = (s \<noteq> [] \<and> hd s = CHR ''-'');
          t = (if s \<noteq> [] \<and> (hd s = CHR ''-'' \<or> hd s = CHR ''+'') then tl s else s)
      in if t = [] \<or> \<not> isdigit (hd t) then (0, nptr)
         else case strtol_digits 0 t of
                (v, endptr) \<Rightarrow> (max LONG_MIN (min LONG_MAX (if neg then - v else v)), endptr))"

text \<open>
  \<open>ip_addr_pton\<close>, the loop with \<open>Suc k\<close> octets still to read, so that \<open>idx == 3\<close> is
  \<open>k = 0\<close>.  \<open>sp\<close> and \<open>ep\<close> point into the same string, so \<open>ep == sp\<close> says that as much
  is left at \<open>ep\<close> as at \<open>sp\<close>; \<open>*ep\<close> is NUL where nothing is left.  The result is the
  list of the bytes stored through \<open>n\<close>, \<open>None\<close> for the return value -1.
\<close>

fun ip_addr_pton_loop :: "nat \<Rightarrow> string \<Rightarrow> byte list option" where
  "ip_addr_pton_loop 0 sp = Some []"
| "ip_addr_pton_loop (Suc k) sp =
     (case strtol sp of
        (ret, ep) \<Rightarrow>
          if ret < 0 \<or> ret > 255 then None
          else if length ep = length sp then None
          else if (k = 0 \<and> ep \<noteq> []) \<or> (k \<noteq> 0 \<and> (ep = [] \<or> hd ep \<noteq> CHR ''.'')) then None
          else (case ip_addr_pton_loop k (tl ep) of
                  None \<Rightarrow> None
                | Some bs \<Rightarrow> Some (word_of_int ret # bs)))"

definition ip_addr_pton :: "string \<Rightarrow> ip_addr_t option" where
  "ip_addr_pton p = map_option addr_of_bytes (ip_addr_pton_loop 4 p)"

text \<open>
  A field as \<open>ip_addr_pton\<close> accepts it, said without \<open>strtol\<close>: white space, then at most
  one sign, then one or more decimal digits and nothing else; the digits read as a number
  of at most 255, which is 0 where the sign is a minus.
\<close>

definition digits_value :: "string \<Rightarrow> int" where
  "digits_value ds = foldl (\<lambda>a c. 10 * a + digit_value c) 0 ds"

definition octet_field :: "string \<Rightarrow> bool" where
  "octet_field f =
     (let s = dropWhile isspace f;
          ds = (if s \<noteq> [] \<and> (hd s = CHR ''-'' \<or> hd s = CHR ''+'') then tl s else s)
      in ds \<noteq> [] \<and> list_all isdigit ds \<and> digits_value ds \<le> 255 \<and>
         (if s \<noteq> [] \<and> hd s = CHR ''-'' then digits_value ds = 0 else True))"

text \<open>The number such a field stands for.\<close>

definition octet_value :: "string \<Rightarrow> int" where
  "octet_value f =
     (let s = dropWhile isspace f;
          ds = (if s \<noteq> [] \<and> (hd s = CHR ''-'' \<or> hd s = CHR ''+'') then tl s else s)
      in digits_value ds)"

section \<open>Devices and interfaces (net.h and net.c, the files src/unnamed/part_000 and part_001)\<close>

definition NET_DEVICE_FLAG_UP :: "16 word" where
  "NET_DEVICE_FLAG_UP = 0x0001"

definition NET_DEVICE_FLAG_NEED_ARP :: "16 word" where
  "NET_DEVICE_FLAG_NEED_ARP = 0x0100"

definition NET_DEVICE_ADDR_LEN :: nat where
  "NET_DEVICE_ADDR_LEN = 16"

definition NET_PROTOCOL_TYPE_IP :: "16 word" where
  "NET_PROTOCOL_TYPE_IP = 0x0800"

definition NET_IFACE_FAMILY_IP :: int where
  "NET_IFACE_FAMILY_IP = 1"

text \<open>
  \<open>struct net_iface\<close>, and \<open>struct ip_iface\<close>, which starts with a \<open>struct net_iface\<close> and
  adds the three addresses (ip.h is not in the sources; the fields are those ip.c uses).
  The \<open>next\<close> pointers are the lists below.
\<close>

record net_iface =
  iface_family :: int
  iface_dev :: addr

record ip_iface = net_iface +
  unicast :: ip_addr_t
  netmask :: ip_addr_t
  broadcast :: ip_addr_t

text \<open>
  \<open>struct net_device_ops\<close>.  The backends are outside the core: an \<open>open\<close> or \<open>close\<close> hook
  is absent (\<open>None\<close>) or returns the given number, and \<open>transmit\<close> answers from the type,
  the bytes and the destination hardware address it is handed.
\<close>

record net_device_ops =
  ops_open :: "int option"
  ops_close :: "int option"
  ops_transmit :: "16 word \<Rightarrow> byte list \<Rightarrow> byte list \<Rightarrow> int"

text \<open>
  \<open>struct net_device\<close>.  The interface list of the device is the list of the attached
  interfaces, newest first; \<open>dev_broadcast\<close> is the union member \<open>broadcast\<close>.
\<close>

record net_device =
  dev_ifaces :: "ip_iface list"
  dev_index :: "32 word"
  dev_name :: string
  dev_type :: "16 word"
  mtu :: "16 word"
  flags :: "16 word"
  hlen :: "16 word"
  alen :: "16 word"
  dev_addr :: "byte list"
  dev_broadcast :: "byte list"
  ops :: net_device_ops

text \<open>
  The state the IP layer works on: the device objects by address, the file-static
  interface list \<open>ifaces\<close> of ip.c (newest first) and the counter of \<open>ip_generate_id\<close>.
\<close>

record stack_state =
  dev_heap :: "addr \<rightharpoonup> net_device"
  ifaces :: "ip_iface list"
  ip_id :: "16 word"

text \<open>A frame handed to a backend's \<open>transmit\<close>: device, type, bytes, hardware address.\<close>

record tx_frame =
  tx_dev :: addr
  tx_type :: "16 word"
  tx_data :: "byte list"
  tx_dst :: "byte list"

text \<open>\<open>net_device_open\<close> and \<open>net_device_close\<close>.\<close>

definition net_device_open :: "addr \<Rightarrow> stack_state \<Rightarrow> (int \<times> stack_state) run" where
  "net_device_open d s =
     (case dev_heap s d of
        None \<Rightarrow> Fault
      | Some dev \<Rightarrow>
          if flags dev AND NET_DEVICE_FLAG_UP \<noteq> 0 then Done (- 1, s)
          else if ops_open (ops dev) = Some (- 1) then Done (- 1, s)
          else Done (0, s\<lparr>dev_heap := (dev_heap s)
                           (d \<mapsto> dev\<lparr>flags := flags dev OR NET_DEVICE_FLAG_UP\<rparr>)\<rparr>))"

definition net_device_close :: "addr \<Rightarrow> stack_state \<Rightarrow> (int \<times> stack_state) run" where
  "net_device_close d s =
     (case dev_heap s d of
        None \<Rightarrow> Fault
      | Some dev \<Rightarrow>
          if flags dev AND NET_DEVICE_FLAG_UP = 0 then Done (- 1, s)
          else if ops_close (ops dev) = Some (- 1) then Done (- 1, s)
          else Done (0, s\<lparr>dev_heap := (dev_heap s)
                           (d \<mapsto> dev\<lparr>flags := flags dev AND NOT NET_DEVICE_FLAG_UP\<rparr>)\<rparr>))"

text \<open>\<open>net_device_add_iface\<close>: the search for the family, then the link at the head.\<close>

fun net_device_add_iface_loop :: "ip_iface list \<Rightarrow> int \<Rightarrow> bool" where
  "net_device_add_iface_loop [] fam = False"
| "net_device_add_iface_loop (entry # rest) fam =
     (if iface_family entry = fam then True else net_device_add_iface_loop rest fam)"

definition net_device_add_iface ::
  "addr \<Rightarrow> ip_iface \<Rightarrow> stack_state \<Rightarrow> (int \<times> ip_iface \<times> stack_state) run" where
  "net_device_add_iface d iface s =
     (case dev_heap s d of
        None \<Rightarrow> Fault
      | Some dev \<Rightarrow>
          if net_device_add_iface_loop (dev_ifaces dev) (iface_family iface)
          then Done (- 1, iface, s)
          else
            let iface' = iface\<lparr>iface_dev := d\<rparr>
            in Done (0, iface',
                     s\<lparr>dev_heap := (dev_heap s)
                          (d \<mapsto> dev\<lparr>dev_ifaces := iface' # dev_ifaces dev\<rparr>)\<rparr>))"

text \<open>\<open>net_device_get_iface\<close>: the first interface of the family, or \<open>NULL\<close>.\<close>

fun net_device_get_iface :: "ip_iface list \<Rightarrow> int \<Rightarrow> ip_iface option" where
  "net_device_get_iface [] fam = None"
| "net_device_get_iface (entry # rest) fam =
     (if iface_family entry = fam then Some entry else net_device_get_iface rest fam)"

text \<open>
  \<open>net_device_output(dev, type, data, len, dst)\<close>: the answer and the frames handed to
  the backend (none or one).
\<close>

definition net_device_output ::
  "addr \<Rightarrow> 16 word \<Rightarrow> byte list \<Rightarrow> byte list \<Rightarrow> stack_state \<Rightarrow> (int \<times> tx_frame list) run" where
  "net_device_output d ty dat dst s =
     (case dev_heap s d of
        None \<Rightarrow> Fault
      | Some dev \<Rightarrow>
          if flags dev AND NET_DEVICE_FLAG_UP = 0 then Done (- 1, [])
          else if length dat > unat (mtu dev) then Done (- 1, [])
          else if ops_transmit (ops dev) ty dat dst = - 1
          then Done (- 1, [\<lparr>tx_dev = d, tx_type = ty, tx_data = dat, tx_dst = dst\<rparr>])
          else Done (0, [\<lparr>tx_dev = d, tx_type = ty, tx_data = dat, tx_dst = dst\<rparr>]))"

section \<open>IPv4 interface layer (ip.c)\<close>

text \<open>
  Modelled from the spec: the macros \<open>IP_VERSION_IPV4\<close> and \<open>IP_HDR_SIZE_MIN\<close> of ip.h,
  which is not in the sources: version 4, and the header without options, of 20 bytes.
\<close>

definition IP_VERSION_IPV4 :: "8 word" where
  "IP_VERSION_IPV4 = 4"

definition IP_HDR_SIZE_MIN :: nat where
  "IP_HDR_SIZE_MIN = 20"

text \<open>
  \<open>ip_iface_alloc(unicast, netmask)\<close>; \<open>alloc_ok\<close> says whether \<open>memory_alloc\<close> succeeds.
  \<open>None\<close> is the \<open>NULL\<close> result.
\<close>

definition ip_iface_alloc :: "string \<Rightarrow> string \<Rightarrow> bool \<Rightarrow> ip_iface option" where
  "ip_iface_alloc uni msk alloc_ok =
     (if \<not> alloc_ok then None
      else case ip_addr_pton uni of
        None \<Rightarrow> None
      | Some u \<Rightarrow>
          (case ip_addr_pton msk of
             None \<Rightarrow> None
           | Some m \<Rightarrow>
               Some \<lparr>iface_family = NET_IFACE_FAMILY_IP, iface_dev = 0,
                     unicast = u, netmask = m, broadcast = (u AND m) OR NOT m\<rparr>))"

text \<open>\<open>ip_iface_register(dev, iface)\<close>.\<close>

definition ip_iface_register :: "addr \<Rightarrow> ip_iface \<Rightarrow> stack_state \<Rightarrow> (int \<times> stack_state) run" where
  "ip_iface_register d iface s =
     (case net_device_add_iface d iface s of
        Fault \<Rightarrow> Fault
      | Timeout \<Rightarrow> Timeout
      | Done (r, iface', s') \<Rightarrow>
          if r = - 1 then Done (- 1, s')
          else Done (0, s'\<lparr>ifaces := iface' # ifaces s'\<rparr>))"

text \<open>\<open>ip_iface_select(addr)\<close>: the first interface whose unicast is \<open>addr\<close>, or \<open>NULL\<close>.\<close>

fun ip_iface_select_loop :: "ip_iface list \<Rightarrow> ip_addr_t \<Rightarrow> ip_iface option" where
  "ip_iface_select_loop [] a = None"
| "ip_iface_select_loop (entry # rest) a =
     (if unicast entry = a then Some entry else ip_iface_select_loop rest a)"

definition ip_iface_select :: "ip_addr_t \<Rightarrow> stack_state \<Rightarrow> ip_iface option" where
  "ip_iface_select a s = ip_iface_select_loop (ifaces s) a"

text \<open>
  \<open>struct ip_hdr\<close> and its image in memory on the little-endian host: \<open>put16\<close> and
  \<open>put32\<close> lay a number out, \<open>get16\<close> and \<open>get32\<close> read it back, \<open>ip_hdr_decode\<close> is the cast
  \<open>(struct ip_hdr *)data\<close> of at least 20 bytes.
\<close>

record ip_hdr =
  hdr_vhl :: "8 word"
  hdr_tos :: "8 word"
  hdr_total :: "16 word"
  hdr_id :: "16 word"
  hdr_offset :: "16 word"
  hdr_ttl :: "8 word"
  hdr_protocol :: "8 word"
  hdr_sum :: "16 word"
  hdr_src :: ip_addr_t
  hdr_dst :: ip_addr_t

definition put16 :: "16 word \<Rightarrow> byte list" where
  "put16 w = [ucast w, ucast (drop_bit 8 w)]"

definition get16 :: "byte list \<Rightarrow> nat \<Rightarrow> 16 word" where
  "get16 bs i = ucast (bs ! i) OR push_bit 8 (ucast (bs ! (i + 1)))"

definition put32 :: "32 word \<Rightarrow> byte list" where
  "put32 w = [ucast w, ucast (drop_bit 8 w), ucast (drop_bit 16 w), ucast (drop_bit 24 w)]"

definition get32 :: "byte list \<Rightarrow> nat \<Rightarrow> 32 word" where
  "get32 bs i =
     ucast (bs ! i) OR push_bit 8 (ucast (bs ! (i + 1))) OR
     push_bit 16 (ucast (bs ! (i + 2))) OR push_bit 24 (ucast (bs ! (i + 3)))"

definition ip_hdr_encode :: "ip_hdr \<Rightarrow> byte list" where
  "ip_hdr_encode h =
     [hdr_vhl h, hdr_tos h] @ put16 (hdr_total h) @ put16 (hdr_id h) @ put16 (hdr_offset h) @
     [hdr_ttl h, hdr_protocol h] @ put16 (hdr_sum h) @ put32 (hdr_src h) @ put32 (hdr_dst h)"

definition ip_hdr_decode :: "byte list \<Rightarrow> ip_hdr" where
  "ip_hdr_decode bs =
     \<lparr>hdr_vhl = bs ! 0, hdr_tos = bs ! 1, hdr_total = get16 bs 2, hdr_id = get16 bs 4,
      hdr_offset = get16 bs 6, hdr_ttl = bs ! 8, hdr_protocol = bs ! 9, hdr_sum = get16 bs 10,
      hdr_src = get32 bs 12, hdr_dst = get32 bs 16\<rparr>"

text \<open>
  Modelled from the spec: \<open>hton16\<close>, \<open>ntoh16\<close> and \<open>cksum16\<close> of util.c are not in the
  sources.  On the little-endian host the byte-order conversions swap the two bytes.
  \<open>cksum16(addr, count, init)\<close> is the 16-bit one's-complement sum of the Internet
  checksum: the 16-bit words of the first \<open>count\<close> bytes (a last odd byte alone) are added
  to \<open>init\<close> in a 32-bit accumulator, the carries above bit 15 are folded back in until
  none is left, and the complement of the low 16 bits is returned.
\<close>

definition hton16 :: "16 word \<Rightarrow> 16 word" where
  "hton16 w = push_bit 8 w OR drop_bit 8 w"

definition ntoh16 :: "16 word \<Rightarrow> 16 word" where
  "ntoh16 w = push_bit 8 w OR drop_bit 8 w"

fun cksum16_add :: "byte list \<Rightarrow> 32 word \<Rightarrow> 32 word" where
  "cksum16_add (a # b # rest) acc = cksum16_add rest (acc + (ucast a OR push_bit 8 (ucast b)))"
| "cksum16_add [a] acc = acc + ucast a"
| "cksum16_add [] acc = acc"

text \<open>Facts the termination of the folding loop rests on.\<close>

lemma ffff_mask: "(0xffff :: 32 word) = mask 16"
  by (simp add: mask_eq_exp_minus_1)


lemma unat_drop16: "unat (drop_bit 16 (s :: 32 word)) = unat s div 65536"
  by (simp add: drop_bit_eq_div unat_div)

lemma unat_and_ffff: "unat (s AND (0xffff :: 32 word)) = unat s mod 65536"
proof -
  have "s AND 0xffff = take_bit 16 s" by (simp only: ffff_mask take_bit_eq_mask)
  then have "unat (s AND 0xffff) = take_bit 16 (unat s)" by (simp only: unsigned_take_bit_eq)
  then show ?thesis by (simp only: take_bit_eq_mod) simp
qed


lemma unat_fold_step:
  "unat ((s AND 0xffff) + drop_bit 16 (s :: 32 word)) = unat s mod 65536 + unat s div 65536"
proof -
  have "unat s < 2 ^ 32" using unsigned_less[of s, where 'a = nat] by simp
  then have "unat s mod 65536 + unat s div 65536 < 2 ^ 32" by simp
  then have "(unat s mod 65536 + unat s div 65536) mod 2 ^ 32 = unat s mod 65536 + unat s div 65536"
    by (rule mod_less)
  then show ?thesis
    by (simp add: unat_word_ariths unat_and_ffff unat_drop16)
qed

lemma div_mod_fold_less:
  assumes "(n :: nat) div 65536 \<noteq> 0"
  shows "n mod 65536 + n div 65536 < n"
proof -
  define q where "q = n div 65536"
  define r where "r = n mod 65536"
  have "n = 65536 * q + r" by (simp add: q_def r_def)
  moreover from assms have "0 < q" by (simp add: q_def)
  ultimately show ?thesis unfolding q_def[symmetric] r_def[symmetric] by linarith
qed

function cksum16_fold :: "32 word \<Rightarrow> 32 word" where
  "cksum16_fold s =
     (if drop_bit 16 s \<noteq> 0 then cksum16_fold ((s AND 0xffff) + drop_bit 16 s) else s)"
  by pat_completeness auto
termination
proof (relation "measure unat")
  fix s :: "32 word"
  assume "drop_bit 16 s \<noteq> 0"
  then have "unat (drop_bit 16 s) \<noteq> 0" by (simp only: unsigned_eq_0_iff) simp
  then have "unat s div 65536 \<noteq> 0" by (simp only: unat_drop16) simp
  then have "unat s mod 65536 + unat s div 65536 < unat s" by (rule div_mod_fold_less)
  then show "((s AND 0xffff) + drop_bit 16 s, s) \<in> measure unat"
    by (simp only: unat_fold_step in_measure)
qed simp

declare cksum16_fold.simps [simp del]

definition cksum16 :: "byte list \<Rightarrow> nat \<Rightarrow> 32 word \<Rightarrow> 16 word" where
  "cksum16 bs count init = NOT (ucast (cksum16_fold (cksum16_add (take count bs) init)))"

text \<open>
  \<open>ip_input(data, len, dev)\<close>.  The function returns nothing; the result says which
  \<open>return\<close> was taken, the last one being the accepted datagram with its interface,
  protocol and total length.
\<close>

datatype ip_input_result =
    Too_Short
  | Invalid_Version
  | Shorter_Than_IHL
  | Shorter_Than_Total
  | Checksum_Error
  | Fragment
  | No_Iface
  | Not_For_Us
  | Accepted ip_iface "8 word" "16 word"

definition ip_input :: "byte list \<Rightarrow> net_device \<Rightarrow> ip_input_result" where
  "ip_input dat dev =
     (if length dat < IP_HDR_SIZE_MIN then Too_Short
      else
        let hdr = ip_hdr_decode dat;
            v = drop_bit 4 (hdr_vhl hdr)
        in if v \<noteq> IP_VERSION_IPV4 then Invalid_Version
           else
             let hl = push_bit 2 (ucast (hdr_vhl hdr AND 0x0f) :: 16 word)
             in if length dat < unat hl then Shorter_Than_IHL
                else
                  let total = ntoh16 (hdr_total hdr)
                  in if length dat < unat total then Shorter_Than_Total
                     else if cksum16 dat (unat hl) 0 \<noteq> 0 then Checksum_Error
                     else
                       let offset = ntoh16 (hdr_offset hdr)
                       in if offset AND 0x2000 \<noteq> 0 \<or> offset AND 0x1fff \<noteq> 0 then Fragment
                          else
                            (case net_device_get_iface (dev_ifaces dev) NET_IFACE_FAMILY_IP of
                               None \<Rightarrow> No_Iface
                             | Some iface \<Rightarrow>
                                 if hdr_dst hdr \<noteq> unicast iface \<and>
                                    hdr_dst hdr \<noteq> broadcast iface \<and>
                                    hdr_dst hdr \<noteq> IP_ADDR_BROADCAST
                                 then Not_For_Us
                                 else Accepted iface (hdr_protocol hdr) total))"

text \<open>
  \<open>ip_output_device(iface, data, len, dst)\<close>.  The hardware address starts as 16 zero
  bytes; with \<open>NEED_ARP\<close> the first \<open>alen\<close> bytes are copied from the device's broadcast
  address when the destination is a broadcast address, and the call fails otherwise.
\<close>

definition ip_output_device ::
  "ip_iface \<Rightarrow> byte list \<Rightarrow> ip_addr_t \<Rightarrow> stack_state \<Rightarrow> (int \<times> tx_frame list) run" where
  "ip_output_device iface dat dst s =
     (case dev_heap s (iface_dev iface) of
        None \<Rightarrow> Fault
      | Some dev \<Rightarrow>
          let hwaddr = replicate NET_DEVICE_ADDR_LEN (0 :: byte)
          in if flags dev AND NET_DEVICE_FLAG_NEED_ARP \<noteq> 0 then
               (if dst = broadcast iface \<or> dst = IP_ADDR_BROADCAST then
                  net_device_output (iface_dev iface) NET_PROTOCOL_TYPE_IP dat
                    (take (unat (alen dev)) (dev_broadcast dev) @ drop (unat (alen dev)) hwaddr) s
                else Done (- 1, []))
             else net_device_output (iface_dev iface) NET_PROTOCOL_TYPE_IP dat hwaddr s)"

text \<open>
  \<open>ip_output_core\<close>.  The header is written with the sum field zero, the checksum of its
  20 bytes is stored into the field, the payload follows, and the first \<open>total\<close> bytes
  of the buffer go to \<open>ip_output_device\<close>; \<open>total\<close> is a \<open>uint16_t\<close>.
\<close>

definition ip_output_core ::
  "ip_iface \<Rightarrow> 8 word \<Rightarrow> byte list \<Rightarrow> ip_addr_t \<Rightarrow> ip_addr_t \<Rightarrow> 16 word \<Rightarrow> 16 word
     \<Rightarrow> stack_state \<Rightarrow> (int \<times> tx_frame list) run" where
  "ip_output_core iface protocol dat src dst ident offset s =
     (let hl = (20 :: 16 word);
          total = hl + word_of_nat (length dat);
          hdr0 = \<lparr>hdr_vhl = push_bit 4 IP_VERSION_IPV4 OR ucast (drop_bit 2 hl), hdr_tos = 0,
                  hdr_total = hton16 total, hdr_id = hton16 ident, hdr_offset = hton16 offset,
                  hdr_ttl = 0xff, hdr_protocol = protocol, hdr_sum = 0,
                  hdr_src = src, hdr_dst = dst\<rparr>;
          hdr = hdr0\<lparr>hdr_sum := cksum16 (ip_hdr_encode hdr0) (unat hl) 0\<rparr>;
          buf = ip_hdr_encode hdr @ dat
      in ip_output_device iface (take (unat total) buf) dst s)"

text \<open>\<open>ip_generate_id\<close>: the counter starts at 128 and wraps as a \<open>uint16_t\<close>.\<close>

definition ip_generate_id :: "stack_state \<Rightarrow> 16 word \<times> stack_state" where
  "ip_generate_id s = (ip_id s, s\<lparr>ip_id := ip_id s + 1\<rparr>)"

text \<open>
  \<open>ip_output(protocol, data, len, src, dst)\<close>: the answer, the state left behind and the
  frames handed to a backend.  \<open>IP_HDR_SIZE_MIN + len\<close> is computed in \<open>size_t\<close>, of 64 bits.
\<close>

definition ip_output ::
  "8 word \<Rightarrow> byte list \<Rightarrow> ip_addr_t \<Rightarrow> ip_addr_t \<Rightarrow> stack_state
     \<Rightarrow> (int \<times> stack_state \<times> tx_frame list) run" where
  "ip_output protocol dat src dst s =
     (if src = IP_ADDR_ANY then Done (- 1, s, [])
      else case ip_iface_select src s of
        None \<Rightarrow> Done (- 1, s, [])
      | Some iface \<Rightarrow>
          if unicast iface \<noteq> src \<and> src \<noteq> IP_ADDR_BROADCAST then Done (- 1, s, [])
          else
            (case dev_heap s (iface_dev iface) of
               None \<Rightarrow> Fault
             | Some dev \<Rightarrow>
                 if unat (mtu dev) < (IP_HDR_SIZE_MIN + length dat) mod 2 ^ 64
                 then Done (- 1, s, [])
                 else
                   (case ip_generate_id s of
                      (ident, s') \<Rightarrow>
                        (case ip_output_core iface protocol dat (unicast iface) dst ident 0 s' of
                           Fault \<Rightarrow> Fault
                         | Timeout \<Rightarrow> Timeout
                         | Done (r, frames) \<Rightarrow>
                             if r = - 1 then Done (- 1, s', frames)
                             else Done (int (length dat), s', frames)))))"

text \<open>
  The operations of the core that work on this state, and a run of them in turn from a
  state.  An interface is allocated from two strings and then registered on a device.
\<close>

datatype stack_op =
    Op_iface_register addr string string bool
  | Op_output "8 word" "byte list" ip_addr_t ip_addr_t
  | Op_device_open addr
  | Op_device_close addr

fun stack_step :: "stack_state \<Rightarrow> stack_op \<Rightarrow> stack_state" where
  "stack_step s (Op_iface_register d uni msk alloc_ok) =
     (case ip_iface_alloc uni msk alloc_ok of
        None \<Rightarrow> s
      | Some iface \<Rightarrow> (case ip_iface_register d iface s of Done (r, s') \<Rightarrow> s' | _ \<Rightarrow> s))"
| "stack_step s (Op_output protocol dat src dst) =
     (case ip_output protocol dat src dst s of Done (r, s', frames) \<Rightarrow> s' | _ \<Rightarrow> s)"
| "stack_step s (Op_device_open d) =
     (case net_device_open d s of Done (r, s') \<Rightarrow> s' | _ \<Rightarrow> s)"
| "stack_step s (Op_device_close d) =
     (case net_device_close d s of Done (r, s') \<Rightarrow> s' | _ \<Rightarrow> s)"

definition stack_run :: "stack_state \<Rightarrow> stack_op list \<Rightarrow> stack_state" where
  "stack_run s opl = foldl stack_step s opl"

definition broadcast_ok :: "ip_iface \<Rightarrow> bool" where
  "broadcast_ok iface \<longleftrightarrow>
     broadcast iface = (unicast iface AND netmask iface) OR NOT (netmask iface)"

text \<open>
  The sum, as a natural number, of the 16-bit words a byte list holds in host order (a
  last odd byte alone): what \<open>cksum16_add\<close> adds to its accumulator while nothing
  overflows.
\<close>

fun wsum :: "byte list \<Rightarrow> nat" where
  "wsum (a # b # rest) = unat a + 256 * unat b + wsum rest"
| "wsum [a] = unat a"
| "wsum [] = 0"

text \<open>
  The downstream device transmission fails: \<open>ip_output_device\<close> has no hardware address
  for the destination (the device needs ARP and the destination is no broadcast
  address), or the device is not up, or the backend's \<open>transmit\<close> refuses a frame handed
  to it.
\<close>

definition transmission_fails ::
  "ip_iface \<Rightarrow> net_device \<Rightarrow> ip_addr_t \<Rightarrow> tx_frame list \<Rightarrow> bool" where
  "transmission_fails iface dev dst frames \<longleftrightarrow>
     (flags dev AND NET_DEVICE_FLAG_NEED_ARP \<noteq> 0 \<and> dst \<noteq> broadcast iface \<and>
        dst \<noteq> IP_ADDR_BROADCAST) \<or>
     flags dev AND NET_DEVICE_FLAG_UP = 0 \<or>
     (\<exists>f\<in>set frames. ops_transmit (ops dev) (tx_type f) (tx_data f) (tx_dst f) = - 1)"

text \<open>
  A loopback-like device at address 4096 for the worked examples, with a backend that
  accepts every frame, and a state that holds it and nothing else.
\<close>

definition example_dev :: net_device where
  "example_dev =
     \<lparr>dev_ifaces = [], dev_index = 0, dev_name = ''net0'', dev_type = 0x0001, mtu = 1500,
      flags = 0x0010, hlen = 0, alen = 0, dev_addr = [], dev_broadcast = [],
      ops = \<lparr>ops_open = None, ops_close = None, ops_transmit = (\<lambda>ty dat dst. 0)\<rparr>\<rparr>"

definition example_stack :: stack_state where
  "example_stack = \<lparr>dev_heap = [4096 \<mapsto> example_dev], ifaces = [], ip_id = 128\<rparr>"

text \<open>
  The interface 10.0.0.2/255.255.255.0 attached to that device, the device once it is up,
  and the state that holds both.
\<close>

definition example_iface :: ip_iface where
  "example_iface =
     \<lparr>iface_family = 1, iface_dev = 4096, unicast = 0x0200000a, netmask = 0x00ffffff,
      broadcast = 0xff00000a\<rparr>"

definition example_up_dev :: net_device where
  "example_up_dev = example_dev\<lparr>dev_ifaces := [example_iface], flags := 0x0011\<rparr>"

definition example_up_stack :: stack_state where
  "example_up_stack =
     \<lparr>dev_heap = [4096 \<mapsto> example_up_dev], ifaces = [example_iface], ip_id = 128\<rparr>"

text \<open>
  A protocol list as registration was meant to build it: from \<open>p\<close> the \<open>next\<close> pointers
  run through the entries at the addresses \<open>as\<close>, in this order, and end in \<open>NULL\<close>.
\<close>

fun proto_chain :: "net_state \<Rightarrow> addr \<Rightarrow> addr list \<Rightarrow> bool" where
  "proto_chain s p [] \<longleftrightarrow> p = 0"
| "proto_chain s p (a # as) \<longleftrightarrow>
     p = a \<and> a \<noteq> 0 \<and>
     (case proto_heap s a of None \<Rightarrow> False | Some pr \<Rightarrow> proto_chain s (proto_next pr) as)"

section \<open>Properties of the protocol dispatcher\<close>

subsection \<open>The list a registration builds\<close>

lemma register_Done0:
  assumes "net_protocol_register f ty h a s0 = (Done 0, s1)"
  shows "s1 = s0\<lparr>proto_heap := (proto_heap s0)
                     (a \<mapsto> \<lparr>proto_next = a, proto_type = ty, queue = [], handler = h\<rparr>),
                  protocols := a\<rparr> \<and> 0 < a"
  using assms
  by (auto simp: net_protocol_register_def split: run.splits bool.splits if_splits)

lemma register_sole:
  "net_protocol_register f ty h a s0 = (Done 0, s1) \<Longrightarrow> sole_proto s1 a ty h []"
  by (drule register_Done0) (simp add: sole_proto_def)

lemma register_loop_self:
  "sole_proto s a ty h q \<Longrightarrow> unat ty' \<noteq> a \<Longrightarrow> net_protocol_register_loop n a ty' s = Timeout"
  by (induction n) (auto simp: sole_proto_def)

lemma register_again_Timeout:
  "sole_proto s a ty h q \<Longrightarrow> unat ty' \<noteq> a \<Longrightarrow>
   net_protocol_register n ty' h' a' s = (Timeout, s)"
  by (simp add: net_protocol_register_def register_loop_self[of s a ty h q] sole_proto_def)

lemma input_loop_other:
  "sole_proto s a ty h q \<Longrightarrow> ty' \<noteq> ty \<Longrightarrow>
   net_input_handler_loop n a ty' dat dv e ok s = (Timeout, s)"
  by (induction n) (auto simp: sole_proto_def)

lemma input_no_protocols:
  "protocols s = 0 \<Longrightarrow> net_input_handler (Suc n) ty dat dv e ok s = (Done 0, s)"
  by (simp add: net_input_handler_def)

lemma drain_empty:
  "sole_proto s a ty h [] \<Longrightarrow> net_softirq_drain a s = (True, s)"
  by (simp add: net_softirq_drain.simps[of a s] sole_proto_def queue_pop_def)

lemma softirq_loop_empty:
  assumes "sole_proto s a ty h []"
  shows "net_softirq_handler_loop n a s = (Timeout, s)"
proof (induction n)
  case 0
  show ?case by simp
next
  case (Suc n)
  from assms have "0 < a"
    and "proto_heap s a = Some \<lparr>proto_next = a, proto_type = ty, queue = [], handler = h\<rparr>"
    by (simp_all add: sole_proto_def)
  then show ?case using Suc drain_empty[OF assms] by simp
qed

subsection \<open>Ingress on the registered type\<close>

lemma input_sole:
  assumes "sole_proto s a ty h q"
  shows "net_input_handler (Suc n) ty dat dv e ok s =
     (if e = 0 then (Done (- 1), s)
      else if ok then
        (Done 0,
         s\<lparr>entry_heap := (entry_heap s)(e \<mapsto> \<lparr>qe_dev = dv, qe_len = length dat, qe_data = dat\<rparr>),
           proto_heap := (proto_heap s)
             (a \<mapsto> \<lparr>proto_next = a, proto_type = ty, queue = q @ [e], handler = h\<rparr>),
           softirq_raised := Suc (softirq_raised s)\<rparr>)
      else (Done (- 1), s\<lparr>entry_heap := (entry_heap s)(e := None)\<rparr>))"
  using assms
  by (simp add: net_input_handler_def sole_proto_def queue_push_def Let_def)

lemma input_sole_Done0:
  assumes sp: "sole_proto s a ty h q"
      and r: "net_input_handler f ty dat dv e ok s = (Done 0, s')"
  shows "0 < e \<and> sole_proto s' a ty h (q @ [e]) \<and> handled s' = handled s \<and>
         entry_heap s' = (entry_heap s)(e \<mapsto> \<lparr>qe_dev = dv, qe_len = length dat, qe_data = dat\<rparr>)"
proof (cases f)
  case 0
  with sp r show ?thesis by (simp add: net_input_handler_def)
next
  case (Suc n)
  with r input_sole[OF sp, of n dat dv e ok] sp show ?thesis
    by (auto simp: sole_proto_def split: if_splits)
qed

lemma input_seq_sole:
  assumes "sole_proto s a ty h q"
      and "net_input_seq f ty ins s = (rs, s2)"
      and "\<forall>r\<in>set rs. r = Done 0"
      and "distinct (map alloc_of ins)"
  shows "sole_proto s2 a ty h (q @ map alloc_of ins) \<and> handled s2 = handled s \<and>
         0 \<notin> set (map alloc_of ins) \<and>
         list_all2 (\<lambda>e en. entry_heap s2 e = Some en) (map alloc_of ins) (map entry_of ins) \<and>
         (\<forall>x. x \<notin> set (map alloc_of ins) \<longrightarrow> entry_heap s2 x = entry_heap s x)"
  using assms
proof (induction ins arbitrary: s q rs s2)
  case Nil
  then show ?case by simp
next
  case (Cons i ins)
  obtain dat dv e ok where i: "i = (dat, dv, e, ok)" by (cases i) auto
  obtain r s' where r: "net_input_handler f ty dat dv e ok s = (r, s')" by fastforce
  obtain rs' s'' where rs': "net_input_seq f ty ins s' = (rs', s'')" by fastforce
  from Cons.prems(2) i r rs' have eq: "rs = r # rs'" "s2 = s''" by auto
  with Cons.prems(3) have r0: "r = Done 0" and rs0: "\<forall>r\<in>set rs'. r = Done 0" by auto
  from input_sole_Done0[OF Cons.prems(1) r[unfolded r0]]
  have e0: "0 < e" and sp': "sole_proto s' a ty h (q @ [e])" and h': "handled s' = handled s"
    and eh': "entry_heap s' =
       (entry_heap s)(e \<mapsto> \<lparr>qe_dev = dv, qe_len = length dat, qe_data = dat\<rparr>)"
    by auto
  from Cons.prems(4) i have d: "distinct (map alloc_of ins)"
    and notin: "e \<notin> set (map alloc_of ins)"
    by auto
  from Cons.IH[OF sp' rs' rs0 d]
  have IH: "sole_proto s'' a ty h ((q @ [e]) @ map alloc_of ins)" "handled s'' = handled s'"
    "0 \<notin> set (map alloc_of ins)"
    "list_all2 (\<lambda>e en. entry_heap s'' e = Some en) (map alloc_of ins) (map entry_of ins)"
    "\<forall>x. x \<notin> set (map alloc_of ins) \<longrightarrow> entry_heap s'' x = entry_heap s' x"
    by auto
  from IH(5) notin eh' i have "entry_heap s'' e = Some (entry_of i)" by simp
  moreover from IH(5) eh' i
  have "\<forall>x. x \<notin> set (map alloc_of (i # ins)) \<longrightarrow> entry_heap s'' x = entry_heap s x" by simp
  ultimately show ?case using IH e0 eq i h' by simp
qed

subsection \<open>The drain\<close>

lemma drain_all:
  assumes "proto_heap s p = Some pr" and "queue pr = es" and "distinct es" and "0 \<notin> set es"
      and "list_all2 (\<lambda>e en. entry_heap s e = Some en) es ens"
  shows "net_softirq_drain p s =
     (True, s\<lparr>proto_heap := (proto_heap s)(p \<mapsto> pr\<lparr>queue := []\<rparr>),
              handled := handled s @ map (\<lambda>en. (handler pr, qe_data en, qe_len en, qe_dev en)) ens,
              entry_heap := (\<lambda>x. if x \<in> set es then None else entry_heap s x)\<rparr>)"
  using assms
proof (induction es arbitrary: s pr ens)
  case Nil
  then have "pr\<lparr>queue := []\<rparr> = pr" by simp
  with Nil show ?case
    by (simp add: net_softirq_drain.simps[of p s] queue_pop_def map_upd_triv)
next
  case (Cons e es)
  from Cons.prems(5) obtain en ens' where ens: "ens = en # ens'"
    and en: "entry_heap s e = Some en"
    and rest: "list_all2 (\<lambda>e en. entry_heap s e = Some en) es ens'"
    by (auto simp: list_all2_Cons1)
  let ?s' = "s\<lparr>proto_heap := (proto_heap s)(p \<mapsto> pr\<lparr>queue := es\<rparr>),
                handled := handled s @ [(handler pr, qe_data en, qe_len en, qe_dev en)],
                entry_heap := (entry_heap s)(e := None)\<rparr>"
  from Cons.prems en have step: "net_softirq_drain p s = net_softirq_drain p ?s'"
    by (simp add: net_softirq_drain.simps[of p s] queue_pop_def)
  from Cons.prems(3) rest
  have rest': "list_all2 (\<lambda>e en. entry_heap ?s' e = Some en) es ens'"
    by (auto simp: list_all2_conv_all_nth)
  have "net_softirq_drain p ?s' =
     (True, ?s'\<lparr>proto_heap := (proto_heap ?s')(p \<mapsto> (pr\<lparr>queue := es\<rparr>)\<lparr>queue := []\<rparr>),
              handled := handled ?s' @
                map (\<lambda>en. (handler (pr\<lparr>queue := es\<rparr>), qe_data en, qe_len en, qe_dev en)) ens',
              entry_heap := (\<lambda>x. if x \<in> set es then None else entry_heap ?s' x)\<rparr>)"
    using Cons.prems by (intro Cons.IH rest') auto
  with step ens show ?case by (auto simp: fun_eq_iff)
qed

lemma softirq_sole:
  assumes sp: "sole_proto s a ty h es" and d: "distinct es" and z: "0 \<notin> set es"
      and en: "list_all2 (\<lambda>e en. entry_heap s e = Some en) es ens"
  shows "net_softirq_handler (Suc n) s =
     (Timeout,
      s\<lparr>proto_heap := (proto_heap s)
           (a \<mapsto> \<lparr>proto_next = a, proto_type = ty, queue = [], handler = h\<rparr>),
        handled := handled s @ map (\<lambda>en. (h, qe_data en, qe_len en, qe_dev en)) ens,
        entry_heap := (\<lambda>x. if x \<in> set es then None else entry_heap s x)\<rparr>)"
proof -
  let ?pr = "\<lparr>proto_next = a, proto_type = ty, queue = es, handler = h\<rparr>"
  let ?s' = "s\<lparr>proto_heap := (proto_heap s)(a \<mapsto> ?pr\<lparr>queue := []\<rparr>),
        handled := handled s @ map (\<lambda>en. (handler ?pr, qe_data en, qe_len en, qe_dev en)) ens,
        entry_heap := (\<lambda>x. if x \<in> set es then None else entry_heap s x)\<rparr>"
  from sp have a: "protocols s = a" "0 < a" "proto_heap s a = Some ?pr"
    by (simp_all add: sole_proto_def)
  have dr: "net_softirq_drain a s = (True, ?s')"
    by (rule drain_all[OF a(3) _ d z en]) simp
  have sp': "sole_proto ?s' a ty h []"
    using a by (simp add: sole_proto_def)
  have "net_softirq_handler_loop (Suc n) a s = net_softirq_handler_loop n a ?s'"
    using a dr by simp
  also have "\<dots> = (Timeout, ?s')" by (rule softirq_loop_empty[OF sp'])
  finally show ?thesis using a by (simp add: net_softirq_handler_def)
qed

subsection \<open>The loops on a list that ends in NULL\<close>

text \<open>
  On a list that ends in \<open>NULL\<close> the loop of \<open>net_input_handler\<close> leaves with 0 and an
  unchanged state when no entry has the type, and the drain with every queue empty
  returns 0: the walks themselves are sound, and what keeps them from returning is the
  link that \<open>net_protocol_register\<close> writes.
\<close>

lemma input_unregistered_on_chain:
  assumes "proto_chain s p as"
      and "\<forall>a\<in>set as. \<forall>pr. proto_heap s a = Some pr \<longrightarrow> proto_type pr \<noteq> ty"
      and "length as < n"
  shows "net_input_handler_loop n p ty dat dv e ok s = (Done 0, s)"
  using assms
proof (induction as arbitrary: p n)
  case Nil
  then show ?case by (cases n) simp_all
next
  case (Cons a as)
  from Cons.prems(3) obtain m where n: "n = Suc m" and m: "length as < m" by (cases n) auto
  from Cons.prems(1) obtain pr where pr: "p = a" "a \<noteq> 0" "proto_heap s a = Some pr"
    "proto_chain s (proto_next pr) as"
    by (auto split: option.splits)
  from Cons.prems(2) pr(3) have ty: "proto_type pr \<noteq> ty" by simp
  from Cons.prems(2) have rest: "\<forall>a\<in>set as. \<forall>pr. proto_heap s a = Some pr \<longrightarrow> proto_type pr \<noteq> ty"
    by simp
  from Cons.IH[OF pr(4) rest m] n pr ty show ?case by simp
qed

lemma softirq_idle_on_chain:
  assumes "proto_chain s p as"
      and "\<forall>a\<in>set as. \<forall>pr. proto_heap s a = Some pr \<longrightarrow> queue pr = []"
      and "length as < n"
  shows "net_softirq_handler_loop n p s = (Done 0, s)"
  using assms
proof (induction as arbitrary: p n)
  case Nil
  then show ?case by (cases n) simp_all
next
  case (Cons a as)
  from Cons.prems(3) obtain m where n: "n = Suc m" and m: "length as < m" by (cases n) auto
  from Cons.prems(1) obtain pr where pr: "p = a" "a \<noteq> 0" "proto_heap s a = Some pr"
    "proto_chain s (proto_next pr) as"
    by (auto split: option.splits)
  from Cons.prems(2) pr(3) have q: "queue pr = []" by simp
  with pr(3) have dr: "net_softirq_drain a s = (True, s)"
    by (simp add: net_softirq_drain.simps[of a s] queue_pop_def)
  from Cons.prems(2) have rest: "\<forall>a\<in>set as. \<forall>pr. proto_heap s a = Some pr \<longrightarrow> queue pr = []"
    by simp
  from Cons.IH[OF pr(4) rest m] n pr dr show ?case by simp
qed

subsection \<open>The claims on the protocol dispatcher\<close>

text \<open>
  C1 (the code at the failing input).  The claim: a registration for a type that is
  already registered returns the failure indication.  The code: after one successful
  registration, whose entry lies at an address a 16-bit number cannot equal, a further
  call of \<open>net_protocol_register\<close> for any type, the registered one included, never
  leaves its search loop, whatever fuel it is given: the loop compares the type with
  the pointer \<open>proto->next\<close>, and the registered entry is its own successor.
\<close>

theorem net_protocol_register_again_never_returns:
  assumes "net_protocol_register f0 ty h a s0 = (Done 0, s1)" and "65535 < a"
  shows "net_protocol_register n ty' h' a' s1 = (Timeout, s1)"
proof -
  have "unat ty' < 65536" using unsigned_less[of ty', where 'a = nat] by simp
  with assms(2) have "unat ty' \<noteq> a" by simp
  with register_sole[OF assms(1)] show ?thesis by (rule register_again_Timeout)
qed

theorem net_protocol_register_again_never_returns_witness:
  "fst (net_protocol_register 1 0x0800 7 65536 net_init_state) = Done 0 \<and>
   (65535 :: nat) < 65536 \<and>
   fst (net_protocol_register 9 0x0800 8 65600
          (snd (net_protocol_register 1 0x0800 7 65536 net_init_state))) = Timeout"
proof -
  have f: "fst (net_protocol_register 1 0x0800 7 65536 net_init_state) = Done 0"
    by (simp add: net_protocol_register_def net_init_state_def)
  then have r: "net_protocol_register 1 0x0800 7 65536 net_init_state =
             (Done 0, snd (net_protocol_register 1 0x0800 7 65536 net_init_state))"
    by (simp add: prod_eq_iff)
  from net_protocol_register_again_never_returns[OF r, of 9 "0x0800" 8 65600] f
  show ?thesis by simp
qed

text \<open>
  C2 (the code at the failing input).  The claim: one invocation of the softirq handler
  terminates.  The code: once a protocol is registered, \<open>net_softirq_handler\<close> does not
  return, whatever fuel it is given, because the walk over the protocol list goes from
  the registered entry to itself.
\<close>

theorem net_softirq_handler_never_returns:
  assumes "net_protocol_register f0 ty h a s0 = (Done 0, s1)"
  shows "net_softirq_handler n s1 = (Timeout, s1)"
  using softirq_loop_empty[OF register_sole[OF assms], of n] register_sole[OF assms]
  by (simp add: net_softirq_handler_def sole_proto_def)

theorem net_softirq_handler_never_returns_witness:
  "fst (net_protocol_register 1 0x0800 7 65536 net_init_state) = Done 0 \<and>
   fst (net_softirq_handler 9 (snd (net_protocol_register 1 0x0800 7 65536 net_init_state)))
     = Timeout"
proof -
  have f: "fst (net_protocol_register 1 0x0800 7 65536 net_init_state) = Done 0"
    by (simp add: net_protocol_register_def net_init_state_def)
  then have r: "net_protocol_register 1 0x0800 7 65536 net_init_state =
             (Done 0, snd (net_protocol_register 1 0x0800 7 65536 net_init_state))"
    by (simp add: prod_eq_iff)
  from net_softirq_handler_never_returns[OF r, of 9] f
  show ?thesis by simp
qed

text \<open>
  C3.  A protocol is registered; \<open>net_input_handler\<close> is then called for its type on the
  inputs \<open>ins\<close> in turn, every call returning 0, the allocator handing out a different
  pointer to each.  Then a drain, run for any positive number of steps, has called the
  protocol's handler on exactly these inputs, in their order, each with the bytes, the
  length and the device of its ingress call, and has called no other handler.
\<close>

theorem net_input_then_softirq_fifo:
  assumes reg: "net_protocol_register f0 ty h a s0 = (Done 0, s1)"
      and ins: "net_input_seq f ty ins s1 = (rs, s2)"
      and ok: "\<forall>r\<in>set rs. r = Done 0"
      and fresh: "distinct (map alloc_of ins)"
      and n: "0 < n"
  shows "handled (snd (net_softirq_handler n s2)) =
           handled s0 @ map (\<lambda>(dat, dv, e, ok). (h, dat, length dat, dv)) ins"
proof -
  from register_Done0[OF reg] have h1: "handled s1 = handled s0" by simp
  from input_seq_sole[OF register_sole[OF reg] ins ok fresh]
  have sp: "sole_proto s2 a ty h (map alloc_of ins)" and h2: "handled s2 = handled s1"
    and z: "0 \<notin> set (map alloc_of ins)"
    and en: "list_all2 (\<lambda>e en. entry_heap s2 e = Some en) (map alloc_of ins) (map entry_of ins)"
    by simp_all
  from n obtain m where m: "n = Suc m" by (cases n) auto
  have "map (\<lambda>en. (h, qe_data en, qe_len en, qe_dev en)) (map entry_of ins) =
        map (\<lambda>(dat, dv, e, ok). (h, dat, length dat, dv)) ins"
    by (induction ins) auto
  with softirq_sole[OF sp fresh z en, of m] h1 h2 m show ?thesis by simp
qed

theorem net_input_then_softirq_fifo_witness:
  "fst (net_protocol_register 1 0x0800 7 65536 net_init_state) = Done 0 \<and>
   fst (net_input_seq 1 0x0800 [([1, 2], 3, 70000, True), ([5], 4, 70016, True)]
          (snd (net_protocol_register 1 0x0800 7 65536 net_init_state))) = [Done 0, Done 0] \<and>
   distinct (map alloc_of [([1, 2], 3, 70000, True), ([5 :: byte], 4, 70016, True)]) \<and>
   handled (snd (net_softirq_handler 3
     (snd (net_input_seq 1 0x0800 [([1, 2], 3, 70000, True), ([5], 4, 70016, True)]
        (snd (net_protocol_register 1 0x0800 7 65536 net_init_state)))))) =
     [(7, [1, 2], 2, 3), (7, [5], 1, 4)]"
proof -
  let ?ins = "[([1, 2], 3, 70000, True), ([5 :: byte], 4, 70016, True)]"
  let ?s1 = "snd (net_protocol_register 1 0x0800 7 65536 net_init_state)"
  have f: "fst (net_protocol_register 1 0x0800 7 65536 net_init_state) = Done 0"
    by (simp add: net_protocol_register_def net_init_state_def)
  then have r: "net_protocol_register 1 0x0800 7 65536 net_init_state = (Done 0, ?s1)"
    by (simp add: prod_eq_iff)
  have g: "fst (net_input_seq 1 0x0800 ?ins ?s1) = [Done 0, Done 0]"
    by (simp add: net_protocol_register_def net_init_state_def net_input_handler_def
        queue_push_def)
  then have i: "net_input_seq 1 0x0800 ?ins ?s1 =
      ([Done 0, Done 0], snd (net_input_seq 1 0x0800 ?ins ?s1))"
    by (simp add: prod_eq_iff)
  have ok: "\<forall>r\<in>set [Done 0, Done (0 :: int)]. r = Done 0" by simp
  have d: "distinct (map alloc_of ?ins)" by simp
  have h0: "handled net_init_state = []" by (simp add: net_init_state_def)
  from net_input_then_softirq_fifo[OF r i ok d, of 3] f g d h0
  show ?thesis by simp
qed

text \<open>
  C10 (the code at the failing input).  The claim: a call for a type that no entry has
  returns 0.  The code: once a protocol is registered, \<open>net_input_handler\<close> for any other
  type never leaves its loop over the protocol list, whatever fuel it is given; only
  with no protocol registered at all does it return 0.
\<close>

theorem net_input_handler_unregistered_never_returns:
  assumes "net_protocol_register f0 ty h a s0 = (Done 0, s1)" and "ty' \<noteq> ty"
  shows "net_input_handler n ty' dat dv e ok s1 = (Timeout, s1)"
  using input_loop_other[OF register_sole[OF assms(1)] assms(2), of n dat dv e ok]
    register_sole[OF assms(1)]
  by (simp add: net_input_handler_def sole_proto_def)

theorem net_input_handler_unregistered_never_returns_witness:
  "fst (net_protocol_register 1 0x0800 7 65536 net_init_state) = Done 0 \<and>
   (0x0806 :: 16 word) \<noteq> 0x0800 \<and>
   fst (net_input_handler 9 0x0806 [1, 2, 3] 1 65600 True
          (snd (net_protocol_register 1 0x0800 7 65536 net_init_state))) = Timeout"
proof -
  have f: "fst (net_protocol_register 1 0x0800 7 65536 net_init_state) = Done 0"
    by (simp add: net_protocol_register_def net_init_state_def)
  then have r: "net_protocol_register 1 0x0800 7 65536 net_init_state =
             (Done 0, snd (net_protocol_register 1 0x0800 7 65536 net_init_state))"
    by (simp add: prod_eq_iff)
  have ne: "(0x0806 :: 16 word) \<noteq> 0x0800" by simp
  from net_input_handler_unregistered_never_returns[OF r ne, of 9 "[1, 2, 3]" 1 65600 True] f
  show ?thesis by simp
qed

section \<open>Properties of the interrupt subsystem\<close>

lemma word_xor_eq_0_iff: "(x XOR y = 0) = (x = y)" for x y :: "'a::len word"
proof
  assume "x XOR y = 0"
  then have "(x XOR y) XOR y = 0 XOR y" by simp
  then show "x = y" by (simp add: xor.assoc)
qed simp

lemma intr_loop_conflict:
  assumes "entry \<in> set es" and "irq_no entry = irq"
      and "irq_flags entry \<noteq> INTR_IRQ_SHARED \<or> fl \<noteq> INTR_IRQ_SHARED"
  shows "intr_request_irq_loop es irq fl"
  using assms by (induction es) (auto simp: word_xor_eq_0_iff)

lemma intr_loop_shared:
  assumes "\<forall>entry\<in>set es. irq_no entry = irq \<longrightarrow> irq_flags entry = INTR_IRQ_SHARED"
  shows "\<not> intr_request_irq_loop es irq INTR_IRQ_SHARED"
  using assms by (induction es) (auto simp: word_xor_eq_0_iff)

lemma flag_absent_not_shared: "fl AND INTR_IRQ_SHARED = 0 \<Longrightarrow> fl \<noteq> INTR_IRQ_SHARED"
  by (auto simp: INTR_IRQ_SHARED_def)

text \<open>
  C7.  Three parts.  (1) If an entry of the IRQ list has the requested IRQ number and the
  SHARED bit is missing from that entry's flags or from the requested flags, the call
  returns -1 and changes nothing.  (2) Where every entry already registered for the IRQ
  has the flags \<open>INTR_IRQ_SHARED\<close> (in particular where there is none), two registrations
  for that IRQ with the flags \<open>INTR_IRQ_SHARED\<close>, their allocations succeeding, both
  return 0.  (3) After a registration with flags 0 has returned 0, a registration for
  the same IRQ with flags 0 returns -1.  SHARED is the only flag of the flags word, and
  a registration carries it when its flags are \<open>INTR_IRQ_SHARED\<close>.
\<close>

theorem intr_request_irq_shared_rule:
  "((\<exists>entry\<in>set (irqs s). irq_no entry = irq \<and>
       (irq_flags entry AND INTR_IRQ_SHARED = 0 \<or> fl AND INTR_IRQ_SHARED = 0)) \<longrightarrow>
      intr_request_irq irq h fl name dv ok s = (- 1, s)) \<and>
   ((\<forall>entry\<in>set (irqs s). irq_no entry = irq \<longrightarrow> irq_flags entry = INTR_IRQ_SHARED) \<longrightarrow>
      fst (intr_request_irq irq h INTR_IRQ_SHARED name dv True s) = 0 \<and>
      fst (intr_request_irq irq h' INTR_IRQ_SHARED name' dv' True
             (snd (intr_request_irq irq h INTR_IRQ_SHARED name dv True s))) = 0) \<and>
   (fst (intr_request_irq irq h 0 name dv ok s) = 0 \<longrightarrow>
      intr_request_irq irq h' 0 name' dv' ok'
             (snd (intr_request_irq irq h 0 name dv ok s)) =
        (- 1, snd (intr_request_irq irq h 0 name dv ok s)))"
proof (intro conjI impI)
  assume "\<exists>entry\<in>set (irqs s). irq_no entry = irq \<and>
       (irq_flags entry AND INTR_IRQ_SHARED = 0 \<or> fl AND INTR_IRQ_SHARED = 0)"
  then obtain entry where "entry \<in> set (irqs s)" "irq_no entry = irq"
    "irq_flags entry \<noteq> INTR_IRQ_SHARED \<or> fl \<noteq> INTR_IRQ_SHARED"
    using flag_absent_not_shared by blast
  then have "intr_request_irq_loop (irqs s) irq fl" by (rule intr_loop_conflict)
  then show "intr_request_irq irq h fl name dv ok s = (- 1, s)"
    by (simp add: intr_request_irq_def)
next
  assume a: "\<forall>entry\<in>set (irqs s). irq_no entry = irq \<longrightarrow> irq_flags entry = INTR_IRQ_SHARED"
  from intr_loop_shared[OF a]
  show "fst (intr_request_irq irq h INTR_IRQ_SHARED name dv True s) = 0"
    by (simp add: intr_request_irq_def)
  from intr_loop_shared[OF a]
  show "fst (intr_request_irq irq h' INTR_IRQ_SHARED name' dv' True
             (snd (intr_request_irq irq h INTR_IRQ_SHARED name dv True s))) = 0"
    using a by (simp add: intr_request_irq_def intr_loop_shared word_xor_eq_0_iff)
next
  assume "fst (intr_request_irq irq h 0 name dv ok s) = 0"
  then show "intr_request_irq irq h' 0 name' dv' ok'
             (snd (intr_request_irq irq h 0 name dv ok s)) =
        (- 1, snd (intr_request_irq irq h 0 name dv ok s))"
    by (auto simp: intr_request_irq_def INTR_IRQ_SHARED_def word_xor_eq_0_iff split: if_splits)
qed

theorem intr_request_irq_shared_rule_witness:
  "intr_request_irq 34 2 INTR_IRQ_SHARED ''tap1'' 0 True
       \<lparr>irqs = [\<lparr>irq_no = 34, irq_handler = 1, irq_flags = 0, irq_name = ''tap0'',
                 irq_dev = 0\<rparr>], sigmask = {1, 34}\<rparr>
     = (- 1, \<lparr>irqs = [\<lparr>irq_no = 34, irq_handler = 1, irq_flags = 0, irq_name = ''tap0'',
                 irq_dev = 0\<rparr>], sigmask = {1, 34}\<rparr>) \<and>
   fst (intr_request_irq 35 1 INTR_IRQ_SHARED ''lo0'' 0 True \<lparr>irqs = [], sigmask = {1}\<rparr>) = 0 \<and>
   fst (intr_request_irq 35 2 INTR_IRQ_SHARED ''lo1'' 0 True
          (snd (intr_request_irq 35 1 INTR_IRQ_SHARED ''lo0'' 0 True
                  \<lparr>irqs = [], sigmask = {1}\<rparr>))) = 0 \<and>
   fst (intr_request_irq 36 1 0 ''dummy0'' 0 True \<lparr>irqs = [], sigmask = {1}\<rparr>) = 0 \<and>
   fst (intr_request_irq 36 2 0 ''dummy1'' 0 True
          (snd (intr_request_irq 36 1 0 ''dummy0'' 0 True \<lparr>irqs = [], sigmask = {1}\<rparr>))) = - 1"
proof -
  let ?s = "\<lparr>irqs = [\<lparr>irq_no = 34, irq_handler = 1, irq_flags = 0, irq_name = ''tap0'',
                 irq_dev = 0\<rparr>], sigmask = {1, 34 :: 32 word}\<rparr>"
  let ?e = "\<lparr>irqs = [], sigmask = {1 :: 32 word}\<rparr>"
  have a: "\<exists>entry\<in>set (irqs ?s). irq_no entry = 34 \<and>
       (irq_flags entry AND INTR_IRQ_SHARED = 0 \<or> INTR_IRQ_SHARED AND INTR_IRQ_SHARED = 0)"
    by simp
  have b: "\<forall>entry\<in>set (irqs ?e). irq_no entry = 35 \<longrightarrow> irq_flags entry = INTR_IRQ_SHARED"
    by simp
  have c: "fst (intr_request_irq 36 1 0 ''dummy0'' 0 True ?e) = 0"
    by (simp add: intr_request_irq_def)
  from intr_request_irq_shared_rule[of ?s 34 INTR_IRQ_SHARED 2 "''tap1''" 0 True] a
  have 1: "intr_request_irq 34 2 INTR_IRQ_SHARED ''tap1'' 0 True ?s = (- 1, ?s)" by blast
  from intr_request_irq_shared_rule[of ?e 35 _ 1 "''lo0''" 0 _ 2 "''lo1''" 0] b
  have 2: "fst (intr_request_irq 35 1 INTR_IRQ_SHARED ''lo0'' 0 True ?e) = 0 \<and>
      fst (intr_request_irq 35 2 INTR_IRQ_SHARED ''lo1'' 0 True
         (snd (intr_request_irq 35 1 INTR_IRQ_SHARED ''lo0'' 0 True ?e))) = 0" by blast
  from intr_request_irq_shared_rule[of ?e 36 _ 1 "''dummy0''" 0 True 2 "''dummy1''" 0 True] c
  have 3: "fst (intr_request_irq 36 2 0 ''dummy1'' 0 True
          (snd (intr_request_irq 36 1 0 ''dummy0'' 0 True ?e))) = - 1" by simp
  from 1 2 3 c show ?thesis by blast
qed

section \<open>Properties of the address parser\<close>

lemma digit_not_space: "isdigit c \<Longrightarrow> \<not> isspace c"
  by (auto simp: isdigit_def isspace_def)

lemma sign_not_space [simp]: "\<not> isspace CHR ''-''" "\<not> isspace CHR ''+''"
  by (simp_all add: isspace_def)

lemma sign_not_digit [simp]: "\<not> isdigit CHR ''-''" "\<not> isdigit CHR ''+''" "\<not> isdigit CHR ''.''"
  by (simp_all add: isdigit_def)

lemma digit_value_range: "isdigit c \<Longrightarrow> 0 \<le> digit_value c \<and> digit_value c \<le> 9"
  by (auto simp: isdigit_def digit_value_def)

lemma strtol_digits_append:
  "list_all isdigit ds \<Longrightarrow> rest = [] \<or> \<not> isdigit (hd rest) \<Longrightarrow>
   strtol_digits acc (ds @ rest) = (foldl (\<lambda>a c. 10 * a + digit_value c) acc ds, rest)"
proof (induction ds arbitrary: acc)
  case Nil
  then show ?case by (cases rest) auto
next
  case (Cons d ds)
  then show ?case by simp
qed

lemma strtol_digits_split:
  "strtol_digits acc s = (v, ep) \<Longrightarrow>
   \<exists>ds. s = ds @ ep \<and> list_all isdigit ds \<and> v = foldl (\<lambda>a c. 10 * a + digit_value c) acc ds \<and>
        (ep = [] \<or> \<not> isdigit (hd ep))"
proof (induction s arbitrary: acc)
  case Nil
  then show ?case by simp
next
  case (Cons c cs)
  show ?case
  proof (cases "isdigit c")
    case True
    with Cons.prems have "strtol_digits (10 * acc + digit_value c) cs = (v, ep)" by simp
    from Cons.IH[OF this] obtain ds where "cs = ds @ ep" "list_all isdigit ds"
      "v = foldl (\<lambda>a c. 10 * a + digit_value c) (10 * acc + digit_value c) ds"
      "ep = [] \<or> \<not> isdigit (hd ep)" by blast
    with True show ?thesis by (intro exI[of _ "c # ds"]) simp
  next
    case False
    with Cons.prems show ?thesis by (intro exI[of _ "[]"]) auto
  qed
qed

lemma foldl_digits_nonneg:
  "list_all isdigit ds \<Longrightarrow> 0 \<le> acc \<Longrightarrow> 0 \<le> foldl (\<lambda>a c. 10 * a + digit_value c) acc ds"
proof (induction ds arbitrary: acc)
  case Nil
  then show ?case by simp
next
  case (Cons d ds)
  from Cons.prems digit_value_range[of d] have "0 \<le> 10 * acc + digit_value d" by simp
  with Cons show ?case by simp
qed

lemma strtol_field:
  assumes f: "octet_field f" and rest: "rest = [] \<or> \<not> isdigit (hd rest)"
  shows "strtol (f @ rest) = (octet_value f, rest) \<and> 0 \<le> octet_value f \<and> octet_value f \<le> 255 \<and> f \<noteq> []"
proof -
  define s where "s = dropWhile isspace f"
  define ds where "ds = (if s \<noteq> [] \<and> (hd s = CHR ''-'' \<or> hd s = CHR ''+'') then tl s else s)"
  from f have ds: "ds \<noteq> []" "list_all isdigit ds" "digits_value ds \<le> 255"
    and neg: "s \<noteq> [] \<and> hd s = CHR ''-'' \<Longrightarrow> digits_value ds = 0"
    by (auto simp: octet_field_def Let_def s_def ds_def split: if_splits)
  from ds have s: "s \<noteq> []" by (auto simp: ds_def split: if_splits)
  then have "\<exists>x\<in>set f. \<not> isspace x" unfolding s_def by (metis dropWhile_eq_Nil_conv)
  then have dw: "dropWhile isspace (f @ rest) = s @ rest"
    unfolding s_def by (auto simp: dropWhile_append1)
  have t: "(if s @ rest \<noteq> [] \<and> (hd (s @ rest) = CHR ''-'' \<or> hd (s @ rest) = CHR ''+'')
             then tl (s @ rest) else s @ rest) = ds @ rest"
    using s ds by (cases s) (auto simp: ds_def)
  have hd: "isdigit (hd (ds @ rest))" using ds by (cases ds) auto
  have v0: "0 \<le> digits_value ds"
    unfolding digits_value_def using ds(2) by (intro foldl_digits_nonneg) simp_all
  have sd: "strtol_digits 0 (ds @ rest) = (digits_value ds, rest)"
    unfolding digits_value_def by (rule strtol_digits_append[OF ds(2) rest])
  have val: "max LONG_MIN (min LONG_MAX (if s \<noteq> [] \<and> hd s = CHR ''-'' then - digits_value ds else digits_value ds))
        = digits_value ds"
    using neg v0 ds(3) by (auto simp: LONG_MAX_def LONG_MIN_def)
  have "strtol (f @ rest) = (digits_value ds, rest)"
    unfolding strtol_def dw Let_def t using hd ds(1) sd val s by simp
  moreover have "octet_value f = digits_value ds"
    by (simp add: octet_value_def Let_def s_def ds_def)
  moreover have "f \<noteq> []" using s by (auto simp: s_def)
  ultimately show ?thesis using v0 ds(3) by simp
qed


lemma strtol_converted:
  assumes r: "strtol sp = (ret, ep)" and moved: "length ep \<noteq> length sp"
      and range: "0 \<le> ret" "ret \<le> 255"
  shows "\<exists>f. sp = f @ ep \<and> octet_field f \<and> (ep = [] \<or> \<not> isdigit (hd ep))"
proof -
  define s where "s = dropWhile isspace sp"
  define neg where "neg \<longleftrightarrow> s \<noteq> [] \<and> hd s = CHR ''-''"
  define sg where "sg = (if s \<noteq> [] \<and> (hd s = CHR ''-'' \<or> hd s = CHR ''+'') then [hd s] else [])"
  define t where "t = (if s \<noteq> [] \<and> (hd s = CHR ''-'' \<or> hd s = CHR ''+'') then tl s else s)"
  have st: "s = sg @ t" by (cases s) (auto simp: sg_def t_def)
  have sp: "sp = takeWhile isspace sp @ s" by (simp add: s_def)
  from r moved have conv: "t \<noteq> []" "isdigit (hd t)"
    by (auto simp: strtol_def Let_def s_def[symmetric] t_def[symmetric] split: if_splits)
  obtain v e where sd: "strtol_digits 0 t = (v, e)" by fastforce
  with r conv have ret: "ret = max LONG_MIN (min LONG_MAX (if neg then - v else v))" and e: "e = ep"
    by (auto simp: strtol_def Let_def s_def[symmetric] t_def[symmetric] neg_def)
  from strtol_digits_split[OF sd] e obtain ds where ds: "t = ds @ ep" "list_all isdigit ds"
    "v = digits_value ds" "ep = [] \<or> \<not> isdigit (hd ep)"
    by (auto simp: digits_value_def)
  from conv ds have dsne: "ds \<noteq> []" by (cases ds) auto
  have v0: "0 \<le> v" unfolding ds(3) digits_value_def using ds(2) by (intro foldl_digits_nonneg) simp_all
  from ret range v0 have v255: "v \<le> 255" and vneg: "neg \<Longrightarrow> v = 0"
    by (auto simp: LONG_MAX_def LONG_MIN_def split: if_splits)
  define f where "f = takeWhile isspace sp @ sg @ ds"
  have hdns: "\<not> isspace (hd (sg @ ds))"
    using dsne ds(2) by (cases ds) (auto simp: sg_def digit_not_space)
  have "dropWhile isspace f = sg @ ds"
  proof -
    have "dropWhile isspace (takeWhile isspace sp @ (sg @ ds)) = dropWhile isspace (sg @ ds)"
      by (rule dropWhile_append2) (auto dest: set_takeWhileD)
    also have "\<dots> = sg @ ds" using hdns dsne by (cases "sg @ ds") auto
    finally show ?thesis by (simp add: f_def)
  qed
  then have A: "dropWhile isspace f = sg @ ds" .
  have B: "(if sg @ ds \<noteq> [] \<and> (hd (sg @ ds) = CHR ''-'' \<or> hd (sg @ ds) = CHR ''+'')
          then tl (sg @ ds) else sg @ ds) = ds"
    using dsne ds(2) by (cases ds) (auto simp: sg_def)
  have C: "sg @ ds \<noteq> [] \<and> hd (sg @ ds) = CHR ''-'' \<longleftrightarrow> neg"
    using dsne ds(2) by (cases ds) (auto simp: sg_def neg_def)
  have "octet_field f"
    unfolding octet_field_def Let_def A B C
    using dsne ds(2,3) v255 vneg by simp
  moreover have "sp = f @ ep" using sp st ds(1) by (simp add: f_def)
  ultimately show ?thesis using ds(4) by blast
qed

lemma pton_step:
  "ip_addr_pton_loop (Suc k) sp \<noteq> None \<longleftrightarrow>
     (\<exists>f ep. sp = f @ ep \<and> octet_field f \<and>
        (if k = 0 then ep = [] else \<exists>r. ep = CHR ''.'' # r \<and> ip_addr_pton_loop k r \<noteq> None))"
  (is "?L \<longleftrightarrow> ?R")
proof
  assume L: ?L
  obtain ret ep where r: "strtol sp = (ret, ep)" by fastforce
  with L have c: "0 \<le> ret" "ret \<le> 255" "length ep \<noteq> length sp"
    "k = 0 \<Longrightarrow> ep = []" "k \<noteq> 0 \<Longrightarrow> ep \<noteq> [] \<and> hd ep = CHR ''.''"
    "ip_addr_pton_loop k (tl ep) \<noteq> None"
    by (auto split: if_splits option.splits)
  from strtol_converted[OF r c(3) c(1,2)] obtain f where f: "sp = f @ ep" "octet_field f" by blast
  show ?R
  proof (cases "k = 0")
    case True
    with f c(4) show ?thesis by auto
  next
    case False
    with c(5) obtain r' where "ep = CHR ''.'' # r'" by (cases ep) auto
    with f c(6) False show ?thesis by auto
  qed
next
  assume ?R
  then obtain f ep where f: "sp = f @ ep" "octet_field f"
    and ep: "if k = 0 then ep = [] else \<exists>r. ep = CHR ''.'' # r \<and> ip_addr_pton_loop k r \<noteq> None"
    by blast
  from ep have "ep = [] \<or> \<not> isdigit (hd ep)" by (auto split: if_splits)
  from strtol_field[OF f(2) this] f(1)
  have s: "strtol sp = (octet_value f, ep)" "0 \<le> octet_value f" "octet_value f \<le> 255" "f \<noteq> []"
    by simp_all
  from f(1) s(4) have "length ep \<noteq> length sp" by simp
  with s ep show ?L by (auto split: if_splits)
qed

lemma pton_last: "ip_addr_pton_loop (Suc 0) f \<noteq> None \<longleftrightarrow> octet_field f"
  using pton_step[of 0 f] by auto

lemma pton_more:
  "ip_addr_pton_loop (Suc (Suc k)) sp \<noteq> None \<longleftrightarrow>
     (\<exists>f r. sp = f @ CHR ''.'' # r \<and> octet_field f \<and> ip_addr_pton_loop (Suc k) r \<noteq> None)"
  using pton_step[of "Suc k" sp] by auto


text \<open>
  C8 (as amended).  \<open>ip_addr_pton\<close> succeeds exactly on the strings made of four fields
  with one dot between neighbours and nothing else, where a field is what \<open>strtol\<close>
  converts: optional white space, an optional sign, one or more decimal digits, the
  value at most 255 and zero after a minus sign.  It rejects the empty string,
  \<open>1.2.3\<close>, \<open>1.2.3.4.5\<close>, \<open>1.2.3.256\<close>, \<open>1.2.3.-1\<close>, \<open>1.2.3.a\<close> and \<open>1..2.3\<close>.
\<close>

theorem ip_addr_pton_accepts_iff:
  "(ip_addr_pton p \<noteq> None \<longleftrightarrow>
     (\<exists>f1 f2 f3 f4. p = f1 @ ''.'' @ f2 @ ''.'' @ f3 @ ''.'' @ f4 \<and>
        octet_field f1 \<and> octet_field f2 \<and> octet_field f3 \<and> octet_field f4)) \<and>
   ip_addr_pton [] = None \<and> ip_addr_pton ''1.2.3'' = None \<and>
   ip_addr_pton ''1.2.3.4.5'' = None \<and> ip_addr_pton ''1.2.3.256'' = None \<and>
   ip_addr_pton ''1.2.3.-1'' = None \<and> ip_addr_pton ''1.2.3.a'' = None \<and>
   ip_addr_pton ''1..2.3'' = None"
proof (intro conjI)
  have 4: "(4 :: nat) = Suc (Suc (Suc (Suc 0)))" by simp
  have "ip_addr_pton p \<noteq> None \<longleftrightarrow> ip_addr_pton_loop (Suc (Suc (Suc (Suc 0)))) p \<noteq> None"
    by (simp add: ip_addr_pton_def 4)
  also have "\<dots> \<longleftrightarrow> (\<exists>f1 f2 f3 f4. p = f1 @ ''.'' @ f2 @ ''.'' @ f3 @ ''.'' @ f4 \<and>
        octet_field f1 \<and> octet_field f2 \<and> octet_field f3 \<and> octet_field f4)"
    (is "?A \<longleftrightarrow> ?B")
  proof
    assume ?A
    then obtain f1 r1 f2 r2 f3 f4 where "p = f1 @ CHR ''.'' # r1" "r1 = f2 @ CHR ''.'' # r2"
      "r2 = f3 @ CHR ''.'' # f4" "octet_field f1" "octet_field f2" "octet_field f3"
      "octet_field f4"
      unfolding pton_more pton_last by blast
    then show ?B by (intro exI[of _ f1] exI[of _ f2] exI[of _ f3] exI[of _ f4]) simp
  next
    assume ?B
    then obtain f1 f2 f3 f4 where p: "p = f1 @ ''.'' @ f2 @ ''.'' @ f3 @ ''.'' @ f4"
      and f: "octet_field f1" "octet_field f2" "octet_field f3" "octet_field f4"
      by blast
    from f(3,4) have "ip_addr_pton_loop (Suc (Suc 0)) (f3 @ CHR ''.'' # f4) \<noteq> None"
      unfolding pton_more pton_last by blast
    with f(2)
    have "ip_addr_pton_loop (Suc (Suc (Suc 0))) (f2 @ CHR ''.'' # f3 @ CHR ''.'' # f4) \<noteq> None"
      unfolding pton_more[of "Suc 0"] by blast
    with f(1) p show ?A
      unfolding pton_more[of "Suc (Suc 0)"] by auto
  qed
  finally show "ip_addr_pton p \<noteq> None \<longleftrightarrow> ?B" .
next
  show "ip_addr_pton [] = None" by code_simp
next
  show "ip_addr_pton ''1.2.3'' = None" by code_simp
next
  show "ip_addr_pton ''1.2.3.4.5'' = None" by code_simp
next
  show "ip_addr_pton ''1.2.3.256'' = None" by code_simp
next
  show "ip_addr_pton ''1.2.3.-1'' = None" by code_simp
next
  show "ip_addr_pton ''1.2.3.a'' = None" by code_simp
next
  show "ip_addr_pton ''1..2.3'' = None" by code_simp
qed

theorem ip_addr_pton_accepts_iff_witness:
  "octet_field ''10'' \<and> octet_field ''0'' \<and> octet_field '' +2'' \<and> \<not> octet_field ''256'' \<and>
   ip_addr_pton ''10.0.0. +2'' \<noteq> None"
proof -
  have f: "octet_field ''10''" "octet_field ''0''" "octet_field '' +2''" by code_simp+
  have n: "\<not> octet_field ''256''" by code_simp
  have "''10.0.0. +2'' = ''10'' @ ''.'' @ ''0'' @ ''.'' @ ''0'' @ ''.'' @ '' +2''" by simp
  with f have "\<exists>f1 f2 f3 f4. ''10.0.0. +2'' = f1 @ ''.'' @ f2 @ ''.'' @ f3 @ ''.'' @ f4 \<and>
        octet_field f1 \<and> octet_field f2 \<and> octet_field f3 \<and> octet_field f4"
    by blast
  with ip_addr_pton_accepts_iff[of "''10.0.0. +2''"] have "ip_addr_pton ''10.0.0. +2'' \<noteq> None"
    by blast
  with f n show ?thesis by simp
qed

text \<open>
  C8 as stated fails: the string \<open>+1.2.3.4\<close> holds a character that is neither a digit
  nor a dot, and \<open>ip_addr_pton\<close> succeeds on it (with the address 1.2.3.4); so does a
  string that starts with a blank.
\<close>

theorem ip_addr_pton_accepts_sign_counterexample:
  "CHR ''+'' \<in> set ''+1.2.3.4'' \<and> \<not> isdigit CHR ''+'' \<and> CHR ''+'' \<noteq> CHR ''.'' \<and>
   ip_addr_pton ''+1.2.3.4'' = Some 0x04030201 \<and>
   ip_addr_pton '' 1.2.3.4'' = Some 0x04030201"
proof (intro conjI)
  show "ip_addr_pton ''+1.2.3.4'' = Some 0x04030201" by code_simp
  show "ip_addr_pton '' 1.2.3.4'' = Some 0x04030201" by code_simp
qed (simp_all add: isdigit_def)

section \<open>Properties of the IPv4 layer\<close>

subsection \<open>The broadcast address of an interface\<close>

lemma ip_iface_alloc_broadcast:
  "ip_iface_alloc uni msk ok = Some iface \<Longrightarrow> broadcast_ok iface"
  by (auto simp: ip_iface_alloc_def broadcast_ok_def split: if_splits option.splits)

lemma add_iface_fields:
  "net_device_add_iface d iface s = Done (r, iface', s') \<Longrightarrow>
   unicast iface' = unicast iface \<and> netmask iface' = netmask iface \<and>
   broadcast iface' = broadcast iface \<and> ifaces s' = ifaces s"
  by (auto simp: net_device_add_iface_def Let_def split: option.splits if_splits)

lemma ip_iface_register_ok:
  assumes "ip_iface_register d iface s = Done (r, s')" and "broadcast_ok iface"
      and "list_all broadcast_ok (ifaces s)"
  shows "list_all broadcast_ok (ifaces s')"
proof -
  from assms(1) obtain r0 iface' s0 where a: "net_device_add_iface d iface s = Done (r0, iface', s0)"
    by (auto simp: ip_iface_register_def split: run.splits)
  from add_iface_fields[OF a] assms(2) have "broadcast_ok iface'" "ifaces s0 = ifaces s"
    by (simp_all add: broadcast_ok_def)
  with assms(1,3) a show ?thesis
    by (auto simp: ip_iface_register_def split: if_splits)
qed

lemma ip_output_ifaces:
  "ip_output protocol dat src dst s = Done (r, s', frames) \<Longrightarrow> ifaces s' = ifaces s"
  by (auto simp: ip_output_def ip_generate_id_def split: if_splits option.splits run.splits prod.splits)

lemma net_device_open_ifaces:
  "net_device_open d s = Done (r, s') \<Longrightarrow> ifaces s' = ifaces s"
  by (auto simp: net_device_open_def split: if_splits option.splits)

lemma net_device_close_ifaces:
  "net_device_close d s = Done (r, s') \<Longrightarrow> ifaces s' = ifaces s"
  by (auto simp: net_device_close_def split: if_splits option.splits)

lemma stack_step_ok:
  "list_all broadcast_ok (ifaces s) \<Longrightarrow> list_all broadcast_ok (ifaces (stack_step s ope))"
proof (cases ope)
  case (Op_iface_register d uni msk ok)
  assume inv: "list_all broadcast_ok (ifaces s)"
  show ?thesis
  proof (cases "ip_iface_alloc uni msk ok")
    case None
    with Op_iface_register inv show ?thesis by simp
  next
    case (Some iface)
    then have b: "broadcast_ok iface" by (rule ip_iface_alloc_broadcast)
    show ?thesis
    proof (cases "ip_iface_register d iface s")
      case (Done x)
      obtain r s' where x: "x = (r, s')" by (cases x)
      from ip_iface_register_ok[OF Done[unfolded x] b inv] Op_iface_register Some Done x
      show ?thesis by simp
    qed (use Op_iface_register Some inv in simp_all)
  qed
next
  case (Op_output protocol dat src dst)
  assume inv: "list_all broadcast_ok (ifaces s)"
  show ?thesis
  proof (cases "ip_output protocol dat src dst s")
    case (Done x)
    obtain r s' frames where x: "x = (r, s', frames)" by (cases x)
    from ip_output_ifaces[OF Done[unfolded x]] Op_output Done x inv show ?thesis by simp
  qed (use Op_output inv in simp_all)
next
  case (Op_device_open d)
  assume inv: "list_all broadcast_ok (ifaces s)"
  show ?thesis
  proof (cases "net_device_open d s")
    case (Done x)
    obtain r s' where x: "x = (r, s')" by (cases x)
    from net_device_open_ifaces[OF Done[unfolded x]] Op_device_open Done x inv show ?thesis by simp
  qed (use Op_device_open inv in simp_all)
next
  case (Op_device_close d)
  assume inv: "list_all broadcast_ok (ifaces s)"
  show ?thesis
  proof (cases "net_device_close d s")
    case (Done x)
    obtain r s' where x: "x = (r, s')" by (cases x)
    from net_device_close_ifaces[OF Done[unfolded x]] Op_device_close Done x inv show ?thesis by simp
  qed (use Op_device_close inv in simp_all)
qed

lemma stack_run_ok:
  "list_all broadcast_ok (ifaces s) \<Longrightarrow> list_all broadcast_ok (ifaces (stack_run s opl))"
  unfolding stack_run_def
  by (induction opl arbitrary: s) (simp_all add: stack_step_ok)

subsection \<open>Header layout and checksum\<close>

lemma ntoh16_hton16: "ntoh16 (hton16 w) = w"
  unfolding ntoh16_def hton16_def
  by (rule bit_word_eqI) (auto simp: bit_simps)

lemma get16_put16: "ucast (ucast w :: byte) OR push_bit 8 (ucast (ucast (drop_bit 8 w) :: byte)) = w"
  for w :: "16 word"
  by (rule bit_word_eqI) (auto simp: bit_simps)

lemma get32_put32:
  "ucast (ucast w :: byte) OR push_bit 8 (ucast (ucast (drop_bit 8 w) :: byte)) OR
   push_bit 16 (ucast (ucast (drop_bit 16 w) :: byte)) OR
   push_bit 24 (ucast (ucast (drop_bit 24 w) :: byte)) = w"
  for w :: "32 word"
  apply (rule bit_word_eqI)
  subgoal for n
    by (cases "n < 8"; cases "n < 16"; cases "n < 24") (auto simp: bit_simps not_less)
  done

lemma length_ip_hdr_encode: "length (ip_hdr_encode h) = 20"
  by (simp add: ip_hdr_encode_def put16_def put32_def)

lemma ip_hdr_decode_encode: "ip_hdr_decode (ip_hdr_encode h @ dat) = h"
  by (simp add: ip_hdr_decode_def ip_hdr_encode_def put16_def put32_def get16_def get32_def
      get16_put16 get32_put32)


lemma unat_byte_pair:
  "unat (ucast a OR push_bit 8 (ucast b) :: 32 word) = unat a + 256 * unat b"
  for a b :: byte
proof -
  have "(ucast a :: 32 word) AND push_bit 8 (ucast b) = 0"
    by (rule bit_word_eqI) (auto simp: bit_simps dest: bit_imp_le_length)
  then have "(ucast a OR push_bit 8 (ucast b) :: 32 word) = ucast a + push_bit 8 (ucast b)"
    by (simp add: disjunctive_add_eq_or)
  moreover have "unat (ucast a :: 32 word) = unat a"
    by (simp add: unsigned_ucast_eq take_bit_nat_eq_self[OF order_less_trans[OF unsigned_less]])
  moreover have "unat (push_bit 8 (ucast b :: 32 word)) = 256 * unat b"
  proof -
    have b: "unat b < 256" using unsigned_less[of b, where 'a = nat] by simp
    have "unat (ucast b :: 32 word) = unat b"
      by (simp add: unsigned_ucast_eq take_bit_nat_eq_self[OF order_less_trans[OF unsigned_less]])
    then have "unat (push_bit 8 (ucast b :: 32 word)) = (unat b * 256) mod 2 ^ 32"
      by (simp add: push_bit_eq_mult unat_word_ariths)
    also have "\<dots> = 256 * unat b"
      using b by simp
    finally show ?thesis .
  qed
  moreover have "unat a < 256" using unsigned_less[of a, where 'a = nat] by simp
  moreover have "unat b < 256" using unsigned_less[of b, where 'a = nat] by simp
  ultimately show ?thesis by (simp add: unat_word_ariths)
qed


lemma unat_byte32: "unat (ucast a :: 32 word) = unat a" for a :: byte
  by (simp add: unsigned_ucast_eq take_bit_nat_eq_self[OF order_less_trans[OF unsigned_less]])

lemma unat_cksum16_add:
  "unat acc + wsum bs < 2 ^ 32 \<Longrightarrow> unat (cksum16_add bs acc) = unat acc + wsum bs"
proof (induction bs acc rule: cksum16_add.induct)
  case (1 a b rest acc)
  from "1.prems" have lt: "unat acc + (unat a + 256 * unat b) < 2 ^ 32" by simp
  then have u: "unat (acc + (ucast a OR push_bit 8 (ucast b))) = unat acc + (unat a + 256 * unat b)"
    by (simp add: unat_word_ariths unat_byte_pair)
  with "1.prems" have "unat (acc + (ucast a OR push_bit 8 (ucast b))) + wsum rest < 2 ^ 32" by simp
  from "1.IH"[OF this] u show ?case by simp
next
  case (2 a acc)
  then show ?case by (simp add: unat_word_ariths unat_byte32)
next
  case (3 acc)
  then show ?case by simp
qed

lemma mod_65535_fold:
  "0 < q \<Longrightarrow> (65536 * q + r - 1) mod 65535 = (q + r - 1) mod (65535 :: nat)"
proof -
  assume "0 < q"
  then have "65536 * q + r - 1 = 65535 * q + (q + r - 1)" by simp
  then show ?thesis by (simp only: mod_mult_self4)
qed

lemma unat_cksum16_fold:
  "0 < unat s \<Longrightarrow> unat (cksum16_fold s) = (unat s - 1) mod 65535 + 1"
proof (induction s rule: cksum16_fold.induct)
  case (1 s)
  show ?case
  proof (cases "drop_bit 16 s = 0")
    case True
    then have "unat (drop_bit 16 s) = 0" by simp
    then have "unat s div 65536 = 0" by (simp only: unat_drop16)
    then have "unat s < 65536" by (simp add: div_eq_0_iff)
    with "1.prems" have "(unat s - 1) mod 65535 = unat s - 1" by simp
    with "1.prems" True show ?thesis by (simp add: cksum16_fold.simps[of s])
  next
    case False
    define q where "q = unat s div 65536"
    define r where "r = unat s mod 65536"
    have n: "unat s = 65536 * q + r" by (simp add: q_def r_def)
    from False have "unat (drop_bit 16 s) \<noteq> 0" by (simp only: unsigned_eq_0_iff) simp
    then have q: "0 < q" by (simp add: unat_drop16 q_def)
    have step: "unat ((s AND 0xffff) + drop_bit 16 s) = r + q"
      by (simp only: unat_fold_step q_def r_def)
    with q have pos: "0 < unat ((s AND 0xffff) + drop_bit 16 s)" by simp
    from "1.IH"[OF False pos] step
    have "unat (cksum16_fold ((s AND 0xffff) + drop_bit 16 s)) = (r + q - 1) mod 65535 + 1"
      by simp
    moreover have "(unat s - 1) mod 65535 = (q + r - 1) mod 65535"
      unfolding n by (rule mod_65535_fold[OF q])
    ultimately show ?thesis using False by (simp add: cksum16_fold.simps[of s] add.commute)
  qed
qed

lemma wsum_append_even: "even (length xs) \<Longrightarrow> wsum (xs @ ys) = wsum xs + wsum ys"
proof (induction xs rule: wsum.induct)
  case (2 a)
  then show ?case by simp
qed simp_all

lemma wsum_put16: "wsum (put16 w) = unat w"
proof -
  have "unat (ucast (ucast w :: byte) OR push_bit 8 (ucast (ucast (drop_bit 8 w) :: byte)) :: 32 word)
        = unat (ucast w :: 32 word)"
    by (rule arg_cong[where f = unat]) (rule bit_word_eqI, auto simp: bit_simps dest: bit_imp_le_length)
  also have "\<dots> = unat w"
    by (simp add: unsigned_ucast_eq take_bit_nat_eq_self[OF order_less_trans[OF unsigned_less]])
  finally show ?thesis by (simp add: put16_def unat_byte_pair)
qed

lemma wsum_bound: "wsum bs \<le> 65535 * length bs"
proof (induction bs rule: wsum.induct)
  case (1 a b rest)
  have "unat a < 256" "unat b < 256"
    using unsigned_less[of a, where 'a = nat] unsigned_less[of b, where 'a = nat] by simp_all
  with 1 show ?case by simp
next
  case (2 a)
  have "unat a < 256" using unsigned_less[of a, where 'a = nat] by simp
  then show ?case by simp
qed simp


lemma wsum_ip_hdr_encode:
  "wsum (ip_hdr_encode h) = wsum (ip_hdr_encode (h\<lparr>hdr_sum := 0\<rparr>)) + unat (hdr_sum h)"
proof -
  define pre where "pre = [hdr_vhl h, hdr_tos h] @ put16 (hdr_total h) @ put16 (hdr_id h) @
     put16 (hdr_offset h) @ [hdr_ttl h, hdr_protocol h]"
  define post where "post = put32 (hdr_src h) @ put32 (hdr_dst h)"
  have e: "\<And>c. ip_hdr_encode (h\<lparr>hdr_sum := c\<rparr>) = pre @ put16 c @ post"
    by (simp add: ip_hdr_encode_def pre_def post_def)
  have ev: "even (length pre)" "even (length (put16 c))" for c
    by (simp_all add: pre_def put16_def)
  have "wsum (pre @ put16 c @ post) = wsum pre + unat c + wsum post" for c
    by (simp add: wsum_append_even[OF ev(1)] wsum_append_even[OF ev(2)] wsum_put16)
  from this[of "hdr_sum h"] this[of 0] e[of "hdr_sum h"] e[of 0] show ?thesis by simp
qed

lemma unat_not16: "unat (NOT x) = 65535 - unat x" for x :: "16 word"
proof -
  have "NOT x = 65535 - x" by (simp add: not_eq_complement)
  moreover have "x \<le> 65535"
    using unsigned_less[of x, where 'a = nat] by (simp add: word_le_nat_alt)
  ultimately show ?thesis by (simp add: unat_sub)
qed

lemma cksum16_value:
  assumes len: "length bs = 20" and pos: "0 < wsum bs"
  shows "unat (cksum16 (bs @ dat) 20 0) = 65534 - (wsum bs - 1) mod 65535"
proof -
  from wsum_bound[of bs] len have b: "wsum bs < 2 ^ 32" by simp
  then have a: "unat (cksum16_add bs 0) = wsum bs"
    using unat_cksum16_add[of 0 bs] by simp
  with pos have f: "unat (cksum16_fold (cksum16_add bs 0)) = (wsum bs - 1) mod 65535 + 1"
    using unat_cksum16_fold[of "cksum16_add bs 0"] by simp
  have "(wsum bs - 1) mod 65535 < 65535" by simp
  then have lt: "(wsum bs - 1) mod 65535 + 1 < 65536" by linarith
  have "unat (ucast (cksum16_fold (cksum16_add bs 0)) :: 16 word) = (wsum bs - 1) mod 65535 + 1"
    using lt by (simp add: unsigned_ucast_eq f take_bit_nat_eq_self)
  then show ?thesis using len by (simp add: cksum16_def unat_not16)
qed

lemma cksum16_stored_zero:
  assumes z: "hdr_sum h = 0" and pos: "0 < wsum (ip_hdr_encode h)"
  shows "cksum16 (ip_hdr_encode (h\<lparr>hdr_sum := cksum16 (ip_hdr_encode h) 20 0\<rparr>) @ dat) 20 0 = 0"
proof -
  define S where "S = wsum (ip_hdr_encode h)"
  define c where "c = cksum16 (ip_hdr_encode h) 20 0"
  define k where "k = (S - 1) div 65535"
  define m where "m = (S - 1) mod 65535"
  have m: "m < 65535" by (simp add: m_def)
  have S: "S = 65535 * k + m + 1" using pos by (simp add: k_def m_def S_def)
  from cksum16_value[OF length_ip_hdr_encode pos, of "[]"]
  have c: "unat c = 65534 - m" by (simp add: c_def m_def S_def)
  from z have h0: "h\<lparr>hdr_sum := 0\<rparr> = h" by simp
  have "wsum (ip_hdr_encode (h\<lparr>hdr_sum := c\<rparr>)) = S + unat c"
    using wsum_ip_hdr_encode[of "h\<lparr>hdr_sum := c\<rparr>"] h0 by (simp add: S_def)
  with S c m have S1: "wsum (ip_hdr_encode (h\<lparr>hdr_sum := c\<rparr>)) = 65535 * (k + 1)" by simp
  then have pos1: "0 < wsum (ip_hdr_encode (h\<lparr>hdr_sum := c\<rparr>))" by simp
  have "(65535 * (k + 1) - 1) mod 65535 = (65535 * k + 65534) mod (65535 :: nat)" by simp
  also have "\<dots> = 65534" by (simp only: mod_mult_self4) simp
  finally have "(wsum (ip_hdr_encode (h\<lparr>hdr_sum := c\<rparr>)) - 1) mod 65535 = 65534"
    by (simp only: S1)
  with cksum16_value[OF length_ip_hdr_encode pos1, of dat]
  have "unat (cksum16 (ip_hdr_encode (h\<lparr>hdr_sum := c\<rparr>) @ dat) 20 0) = 0" by simp
  then show ?thesis by (simp add: c_def unsigned_eq_0_iff)
qed


subsection \<open>The claims on interfaces\<close>

text \<open>
  C9.  An interface that \<open>ip_iface_alloc\<close> returns has
  broadcast = (unicast AND netmask) OR NOT netmask; and if every interface on the global
  interface list satisfies this equation, so does every interface on the list after any
  sequence of the core's operations on the state (allocating and registering an
  interface, \<open>ip_output\<close>, opening and closing a device).  The list is empty at start.
\<close>

theorem ip_iface_broadcast_invariant:
  "(ip_iface_alloc uni msk ok = Some iface \<longrightarrow>
      broadcast iface = (unicast iface AND netmask iface) OR NOT (netmask iface)) \<and>
   ((\<forall>i\<in>set (ifaces s). broadcast_ok i) \<longrightarrow>
      (\<forall>i\<in>set (ifaces (stack_run s opl)).
          broadcast i = (unicast i AND netmask i) OR NOT (netmask i)))"
  using ip_iface_alloc_broadcast[of uni msk ok iface] stack_run_ok[of s opl]
  by (auto simp: list_all_iff broadcast_ok_def)

theorem ip_iface_broadcast_invariant_witness:
  "ip_iface_alloc ''10.0.0.2'' ''255.255.255.0'' True =
     Some \<lparr>iface_family = 1, iface_dev = 0, unicast = 0x0200000a, netmask = 0x00ffffff,
           broadcast = 0xff00000a\<rparr> \<and>
   (0xff00000a :: 32 word) = (0x0200000a AND 0x00ffffff) OR NOT 0x00ffffff \<and>
   ifaces (stack_run example_stack
      [Op_iface_register 4096 ''10.0.0.2'' ''255.255.255.0'' True, Op_device_open 4096]) =
     [\<lparr>iface_family = 1, iface_dev = 4096, unicast = 0x0200000a, netmask = 0x00ffffff,
       broadcast = 0xff00000a\<rparr>] \<and>
   broadcast (hd (ifaces (stack_run example_stack
      [Op_iface_register 4096 ''10.0.0.2'' ''255.255.255.0'' True, Op_device_open 4096]))) =
     0xff00000a"
proof -
  let ?i = "\<lparr>iface_family = 1, iface_dev = 0, unicast = 0x0200000a, netmask = 0x00ffffff,
           broadcast = (0xff00000a :: 32 word)\<rparr>"
  let ?opl = "[Op_iface_register 4096 ''10.0.0.2'' ''255.255.255.0'' True, Op_device_open 4096]"
  have a: "ip_iface_alloc ''10.0.0.2'' ''255.255.255.0'' True = Some ?i" by code_simp
  have r: "ifaces (stack_run example_stack ?opl) =
     [\<lparr>iface_family = 1, iface_dev = 4096, unicast = 0x0200000a, netmask = 0x00ffffff,
       broadcast = 0xff00000a\<rparr>]" by code_simp
  have e: "\<forall>i\<in>set (ifaces example_stack). broadcast_ok i" by (simp add: example_stack_def)
  from ip_iface_broadcast_invariant[of "''10.0.0.2''" "''255.255.255.0''" True ?i
      example_stack ?opl] a e
  have "broadcast ?i = (unicast ?i AND netmask ?i) OR NOT (netmask ?i)"
    and "\<forall>i\<in>set (ifaces (stack_run example_stack ?opl)).
          broadcast i = (unicast i AND netmask i) OR NOT (netmask i)"
    by blast+
  with a r show ?thesis by simp
qed

subsection \<open>Egress\<close>

lemma net_device_output_result:
  assumes "dev_heap s d = Some dev" and "length dat \<le> unat (mtu dev)"
  shows "\<exists>r frames. net_device_output d ty dat dst s = Done (r, frames) \<and>
           (r = - 1 \<or> r = 0) \<and>
           (r = - 1 \<longleftrightarrow> flags dev AND NET_DEVICE_FLAG_UP = 0 \<or>
              (\<exists>f\<in>set frames. ops_transmit (ops dev) (tx_type f) (tx_data f) (tx_dst f) = - 1)) \<and>
           (r = 0 \<longrightarrow> frames \<noteq> []) \<and>
           (\<forall>f\<in>set frames. tx_dev f = d \<and> tx_type f = ty \<and> tx_data f = dat)"
  using assms by (simp add: net_device_output_def)

lemma ip_output_device_result:
  assumes "dev_heap s (iface_dev iface) = Some dev" and "length dat \<le> unat (mtu dev)"
  shows "\<exists>r frames. ip_output_device iface dat dst s = Done (r, frames) \<and>
           (r = - 1 \<or> r = 0) \<and>
           (r = - 1 \<longleftrightarrow> transmission_fails iface dev dst frames) \<and>
           (r = 0 \<longrightarrow> frames \<noteq> []) \<and>
           (\<forall>f\<in>set frames. tx_dev f = iface_dev iface \<and> tx_type f = NET_PROTOCOL_TYPE_IP \<and>
               tx_data f = dat)"
proof (cases "flags dev AND NET_DEVICE_FLAG_NEED_ARP \<noteq> 0 \<and> dst \<noteq> broadcast iface \<and>
        dst \<noteq> IP_ADDR_BROADCAST")
  case True
  with assms(1) show ?thesis
    by (simp add: ip_output_device_def transmission_fails_def Let_def)
next
  case False
  define hw where "hw = (if flags dev AND NET_DEVICE_FLAG_NEED_ARP \<noteq> 0
     then take (unat (alen dev)) (dev_broadcast dev) @
          drop (unat (alen dev)) (replicate NET_DEVICE_ADDR_LEN (0 :: byte))
     else replicate NET_DEVICE_ADDR_LEN 0)"
  from False assms(1)
  have eq: "ip_output_device iface dat dst s =
      net_device_output (iface_dev iface) NET_PROTOCOL_TYPE_IP dat hw s"
    by (auto simp: ip_output_device_def Let_def hw_def)
  from net_device_output_result[OF assms, of NET_PROTOCOL_TYPE_IP hw] False eq
  show ?thesis by (auto simp: transmission_fails_def)
qed


lemma unat_total:
  assumes "20 + length dat \<le> unat (m :: 16 word)"
  shows "unat (20 + word_of_nat (length dat) :: 16 word) = 20 + length dat"
proof -
  have "unat m < 65536" using unsigned_less[of m, where 'a = nat] by simp
  with assms have "20 + length dat < 65536" by simp
  then show ?thesis by (simp add: unat_word_ariths unat_of_nat)
qed

lemma ip_output_core_result:
  assumes dev: "dev_heap s (iface_dev iface) = Some dev"
      and fits: "20 + length dat \<le> unat (mtu dev)"
  shows "\<exists>r frames. ip_output_core iface protocol dat src dst ident off s = Done (r, frames) \<and>
           (r = - 1 \<or> r = 0) \<and>
           (r = - 1 \<longleftrightarrow> transmission_fails iface dev dst frames) \<and>
           (r = 0 \<longrightarrow> frames \<noteq> []) \<and>
           (\<forall>f\<in>set frames. tx_dev f = iface_dev iface \<and> tx_type f = NET_PROTOCOL_TYPE_IP \<and>
              (\<exists>h. tx_data f = ip_hdr_encode h @ dat \<and> hdr_vhl h = 0x45 \<and> hdr_tos h = 0 \<and>
                   hdr_total h = hton16 (20 + word_of_nat (length dat)) \<and>
                   hdr_id h = hton16 ident \<and> hdr_offset h = hton16 off \<and> hdr_ttl h = 0xff \<and>
                   hdr_protocol h = protocol \<and> hdr_src h = src \<and> hdr_dst h = dst \<and>
                   cksum16 (ip_hdr_encode h @ dat) 20 0 = 0))"
proof -
  define h0 where "h0 = \<lparr>hdr_vhl = push_bit 4 IP_VERSION_IPV4 OR ucast (drop_bit 2 (20 :: 16 word)),
      hdr_tos = 0, hdr_total = hton16 (20 + word_of_nat (length dat)), hdr_id = hton16 ident,
      hdr_offset = hton16 off, hdr_ttl = 0xff, hdr_protocol = protocol, hdr_sum = 0,
      hdr_src = src, hdr_dst = dst\<rparr>"
  define h where "h = h0\<lparr>hdr_sum := cksum16 (ip_hdr_encode h0) 20 0\<rparr>"
  have core: "ip_output_core iface protocol dat src dst ident off s =
      ip_output_device iface (take (unat (20 + word_of_nat (length dat) :: 16 word))
         (ip_hdr_encode h @ dat)) dst s"
    by (simp add: ip_output_core_def Let_def h_def h0_def)
  have len: "length (ip_hdr_encode h @ dat) = 20 + length dat"
    by (simp add: length_ip_hdr_encode)
  then have tk: "take (unat (20 + word_of_nat (length dat) :: 16 word)) (ip_hdr_encode h @ dat) =
      ip_hdr_encode h @ dat"
    by (simp add: unat_total[OF fits])
  have pos: "0 < wsum (ip_hdr_encode h0)"
    by (simp add: ip_hdr_encode_def h0_def IP_VERSION_IPV4_def)
  have zero: "cksum16 (ip_hdr_encode h @ dat) 20 0 = 0"
    unfolding h_def by (rule cksum16_stored_zero[OF _ pos]) (simp add: h0_def)
  have fields: "hdr_vhl h = 0x45 \<and> hdr_tos h = 0 \<and>
      hdr_total h = hton16 (20 + word_of_nat (length dat)) \<and>
      hdr_id h = hton16 ident \<and> hdr_offset h = hton16 off \<and> hdr_ttl h = 0xff \<and>
      hdr_protocol h = protocol \<and> hdr_src h = src \<and> hdr_dst h = dst"
    by (simp add: h_def h0_def IP_VERSION_IPV4_def)
  from fits len have "length (ip_hdr_encode h @ dat) \<le> unat (mtu dev)" by simp
  from ip_output_device_result[OF dev this, of dst]
  obtain r frames where r: "ip_output_device iface (ip_hdr_encode h @ dat) dst s = Done (r, frames)"
    "r = - 1 \<or> r = 0" "r = - 1 \<longleftrightarrow> transmission_fails iface dev dst frames"
    "\<forall>f\<in>set frames. tx_dev f = iface_dev iface \<and> tx_type f = NET_PROTOCOL_TYPE_IP \<and>
        tx_data f = ip_hdr_encode h @ dat"
    "r = 0 \<longrightarrow> frames \<noteq> []"
    by blast
  from r(4) fields zero
  have "\<forall>f\<in>set frames. tx_dev f = iface_dev iface \<and> tx_type f = NET_PROTOCOL_TYPE_IP \<and>
              (\<exists>h. tx_data f = ip_hdr_encode h @ dat \<and> hdr_vhl h = 0x45 \<and> hdr_tos h = 0 \<and>
                   hdr_total h = hton16 (20 + word_of_nat (length dat)) \<and>
                   hdr_id h = hton16 ident \<and> hdr_offset h = hton16 off \<and> hdr_ttl h = 0xff \<and>
                   hdr_protocol h = protocol \<and> hdr_src h = src \<and> hdr_dst h = dst \<and>
                   cksum16 (ip_hdr_encode h @ dat) 20 0 = 0)"
    by blast
  with r(1,2,3,5) core tk show ?thesis by simp
qed


lemma ip_iface_select_loop_Some:
  "ip_iface_select_loop l a = Some iface \<Longrightarrow> iface \<in> set l \<and> unicast iface = a"
  by (induction l) (auto split: if_splits)

lemma ip_iface_select_loop_None:
  "ip_iface_select_loop l a = None \<longleftrightarrow> (\<forall>i\<in>set l. unicast i \<noteq> a)"
  by (induction l) auto

lemma ip_iface_select_None:
  "ip_iface_select a s = None \<longleftrightarrow> (\<forall>i\<in>set (ifaces s). unicast i \<noteq> a)"
  unfolding ip_iface_select_def by (rule ip_iface_select_loop_None)

lemma ip_iface_select_Some:
  "ip_iface_select a s = Some iface \<Longrightarrow> iface \<in> set (ifaces s) \<and> unicast iface = a"
  unfolding ip_iface_select_def by (rule ip_iface_select_loop_Some)

lemma size_t_sum:
  "IP_HDR_SIZE_MIN + length dat < 2 ^ 64 \<Longrightarrow>
   (IP_HDR_SIZE_MIN + length dat) mod 2 ^ 64 = IP_HDR_SIZE_MIN + length dat"
  by (rule mod_less)

lemma ip_output_early:
  assumes "src = IP_ADDR_ANY \<or> ip_iface_select src s = None"
  shows "ip_output protocol dat src dst s = Done (- 1, s, [])"
  using assms by (auto simp: ip_output_def)

lemma ip_output_too_long:
  assumes "src \<noteq> IP_ADDR_ANY" and "ip_iface_select src s = Some iface"
      and "dev_heap s (iface_dev iface) = Some dev"
      and "IP_HDR_SIZE_MIN + length dat < 2 ^ 64"
      and "unat (mtu dev) < IP_HDR_SIZE_MIN + length dat"
  shows "ip_output protocol dat src dst s = Done (- 1, s, [])"
  using assms(1,2,3,5) ip_iface_select_Some[OF assms(2)]
  by (simp only: ip_output_def size_t_sum[OF assms(4)]) simp

lemma ip_output_sent:
  assumes "src \<noteq> IP_ADDR_ANY" and sel: "ip_iface_select src s = Some iface"
      and dev: "dev_heap s (iface_dev iface) = Some dev"
      and len: "IP_HDR_SIZE_MIN + length dat < 2 ^ 64"
      and fits: "\<not> unat (mtu dev) < IP_HDR_SIZE_MIN + length dat"
  shows "\<exists>r frames.
      ip_output protocol dat src dst s = Done (r, s\<lparr>ip_id := ip_id s + 1\<rparr>, frames) \<and>
      (r = - 1 \<or> r = int (length dat)) \<and>
      (r = - 1 \<longleftrightarrow> transmission_fails iface dev dst frames) \<and>
      (r \<noteq> - 1 \<longrightarrow> frames \<noteq> []) \<and>
      (\<forall>f\<in>set frames. tx_dev f = iface_dev iface \<and> tx_type f = NET_PROTOCOL_TYPE_IP \<and>
         (\<exists>h. tx_data f = ip_hdr_encode h @ dat \<and> hdr_vhl h = 0x45 \<and> hdr_tos h = 0 \<and>
              hdr_total h = hton16 (20 + word_of_nat (length dat)) \<and>
              hdr_id h = hton16 (ip_id s) \<and> hdr_offset h = hton16 0 \<and> hdr_ttl h = 0xff \<and>
              hdr_protocol h = protocol \<and> hdr_src h = src \<and> hdr_dst h = dst \<and>
              cksum16 (ip_hdr_encode h @ dat) 20 0 = 0))"
proof -
  let ?s' = "s\<lparr>ip_id := ip_id s + 1\<rparr>"
  from ip_iface_select_Some[OF sel] have u: "unicast iface = src" by simp
  from fits have fits': "20 + length dat \<le> unat (mtu dev)" by (simp add: IP_HDR_SIZE_MIN_def)
  from dev have dev': "dev_heap ?s' (iface_dev iface) = Some dev" by simp
  from ip_output_core_result[OF dev' fits', of protocol src dst "ip_id s" 0]
  obtain r0 frames where
    c: "ip_output_core iface protocol dat src dst (ip_id s) 0 ?s' = Done (r0, frames)"
    and r0: "r0 = - 1 \<or> r0 = 0" "r0 = - 1 \<longleftrightarrow> transmission_fails iface dev dst frames"
      "r0 = 0 \<longrightarrow> frames \<noteq> []"
    and fr: "\<forall>f\<in>set frames. tx_dev f = iface_dev iface \<and> tx_type f = NET_PROTOCOL_TYPE_IP \<and>
         (\<exists>h. tx_data f = ip_hdr_encode h @ dat \<and> hdr_vhl h = 0x45 \<and> hdr_tos h = 0 \<and>
              hdr_total h = hton16 (20 + word_of_nat (length dat)) \<and>
              hdr_id h = hton16 (ip_id s) \<and> hdr_offset h = hton16 0 \<and> hdr_ttl h = 0xff \<and>
              hdr_protocol h = protocol \<and> hdr_src h = src \<and> hdr_dst h = dst \<and>
              cksum16 (ip_hdr_encode h @ dat) 20 0 = 0)"
    by blast
  have "ip_output protocol dat src dst s =
      Done (if r0 = - 1 then - 1 else int (length dat), ?s', frames)"
    using assms(1) sel dev u fits c
    by (simp only: ip_output_def size_t_sum[OF len] ip_generate_id_def) simp
  with r0 fr show ?thesis by (intro exI[of _ "if r0 = - 1 then - 1 else int (length dat)"] exI[of _ frames]) auto
qed


subsection \<open>The claims on egress and ingress\<close>

text \<open>
  C5.  In a state whose listed interfaces all point to a live device, and for a payload
  whose length plus the header size is representable in \<open>size_t\<close>, \<open>ip_output\<close> returns;
  it returns -1 exactly when \<open>src\<close> is 0.0.0.0, or no listed interface has unicast \<open>src\<close>,
  or the MTU of the selected interface's device is smaller than \<open>IP_HDR_SIZE_MIN\<close> plus
  the payload length, or the downstream device transmission fails; and in the first
  three cases no frame is handed to a device and the state is unchanged.
\<close>

theorem ip_output_failure_cases:
  assumes wf: "\<forall>i\<in>set (ifaces s). dev_heap s (iface_dev i) \<noteq> None"
      and len: "IP_HDR_SIZE_MIN + length dat < 2 ^ 64"
  shows "\<exists>r s' frames. ip_output protocol dat src dst s = Done (r, s', frames) \<and>
     (r = - 1 \<longleftrightarrow>
        src = IP_ADDR_ANY \<or> (\<forall>i\<in>set (ifaces s). unicast i \<noteq> src) \<or>
        (\<exists>iface dev. ip_iface_select src s = Some iface \<and>
            dev_heap s (iface_dev iface) = Some dev \<and>
            (unat (mtu dev) < IP_HDR_SIZE_MIN + length dat \<or>
             transmission_fails iface dev dst frames))) \<and>
     (src = IP_ADDR_ANY \<or> (\<forall>i\<in>set (ifaces s). unicast i \<noteq> src) \<or>
        (\<exists>iface dev. ip_iface_select src s = Some iface \<and>
            dev_heap s (iface_dev iface) = Some dev \<and>
            unat (mtu dev) < IP_HDR_SIZE_MIN + length dat)
      \<longrightarrow> frames = [] \<and> s' = s)"
proof (cases "src = IP_ADDR_ANY \<or> ip_iface_select src s = None")
  case True
  from ip_output_early[OF True, of protocol dat dst] True show ?thesis
    by (auto simp: ip_iface_select_None)
next
  case False
  then obtain iface where src: "src \<noteq> IP_ADDR_ANY" and sel: "ip_iface_select src s = Some iface"
    by auto
  from sel have some: "\<not> (\<forall>i\<in>set (ifaces s). unicast i \<noteq> src)"
    by (simp flip: ip_iface_select_None)
  from ip_iface_select_Some[OF sel] wf
  obtain dev where dev: "dev_heap s (iface_dev iface) = Some dev"
    by auto
  show ?thesis
  proof (cases "unat (mtu dev) < IP_HDR_SIZE_MIN + length dat")
    case True
    from ip_output_too_long[OF src sel dev len True, of protocol dst] sel dev True
    show ?thesis by auto
  next
    case fits: False
    from ip_output_sent[OF src sel dev len fits, of protocol dst]
    obtain r frames where
      "ip_output protocol dat src dst s = Done (r, s\<lparr>ip_id := ip_id s + 1\<rparr>, frames)"
      "r = - 1 \<longleftrightarrow> transmission_fails iface dev dst frames"
      by blast
    with src sel some dev fits show ?thesis by auto
  qed
qed

theorem ip_output_failure_cases_witness:
  "(\<exists>r s' frames.
      ip_output 1 [0x41, 0x41] 0x0200000a 0xff00000a example_up_stack = Done (r, s', frames) \<and>
      r \<noteq> - 1) \<and>
   (\<exists>r s' frames.
      ip_output 1 [0x41, 0x41] IP_ADDR_ANY 0xff00000a example_up_stack = Done (r, s', frames) \<and>
      r = - 1 \<and> frames = [] \<and> s' = example_up_stack)"
proof -
  have wf: "\<forall>i\<in>set (ifaces example_up_stack). dev_heap example_up_stack (iface_dev i) \<noteq> None"
    by (simp add: example_up_stack_def example_iface_def)
  have len: "IP_HDR_SIZE_MIN + length [0x41, 0x41 :: byte] < 2 ^ 64"
    by (simp add: IP_HDR_SIZE_MIN_def)
  have sel: "ip_iface_select 0x0200000a example_up_stack = Some example_iface"
    by (simp add: ip_iface_select_def example_up_stack_def example_iface_def)
  have dev: "dev_heap example_up_stack (iface_dev example_iface) = Some example_up_dev"
    by (simp add: example_up_stack_def example_iface_def)
  have ok: "\<not> unat (mtu example_up_dev) < IP_HDR_SIZE_MIN + length [0x41, 0x41 :: byte]"
    by (simp add: example_up_dev_def example_dev_def IP_HDR_SIZE_MIN_def)
  have tx: "\<not> transmission_fails example_iface example_up_dev 0xff00000a frames" for frames
    by (simp add: transmission_fails_def example_up_dev_def example_dev_def
        NET_DEVICE_FLAG_NEED_ARP_def NET_DEVICE_FLAG_UP_def)
  have any: "(0x0200000a :: 32 word) \<noteq> IP_ADDR_ANY" by (simp add: IP_ADDR_ANY_def)
  from ip_output_failure_cases[OF wf len, of 1 "0x0200000a" "0xff00000a"]
  obtain r s' frames where
    1: "ip_output 1 [0x41, 0x41] 0x0200000a 0xff00000a example_up_stack = Done (r, s', frames)"
    and 2: "r = - 1 \<longleftrightarrow>
        (0x0200000a :: 32 word) = IP_ADDR_ANY \<or>
        (\<forall>i\<in>set (ifaces example_up_stack). unicast i \<noteq> 0x0200000a) \<or>
        (\<exists>iface dev. ip_iface_select 0x0200000a example_up_stack = Some iface \<and>
            dev_heap example_up_stack (iface_dev iface) = Some dev \<and>
            (unat (mtu dev) < IP_HDR_SIZE_MIN + length [0x41, 0x41 :: byte] \<or>
             transmission_fails iface dev 0xff00000a frames))"
    by blast
  have listed: "\<not> (\<forall>i\<in>set (ifaces example_up_stack). unicast i \<noteq> 0x0200000a)"
    by (simp add: example_up_stack_def example_iface_def)
  from 2 sel dev ok tx any listed have "r \<noteq> - 1" by simp
  with 1 have a: "\<exists>r s' frames.
      ip_output 1 [0x41, 0x41] 0x0200000a 0xff00000a example_up_stack = Done (r, s', frames) \<and>
      r \<noteq> - 1" by blast
  from ip_output_failure_cases[OF wf len, of 1 IP_ADDR_ANY "0xff00000a"]
  have b: "\<exists>r s' frames.
      ip_output 1 [0x41, 0x41] IP_ADDR_ANY 0xff00000a example_up_stack = Done (r, s', frames) \<and>
      r = - 1 \<and> frames = [] \<and> s' = example_up_stack" by auto
  from a b show ?thesis by (rule conjI)
qed

text \<open>
  C6.  Every frame that \<open>ip_output\<close> hands to a device starts with a header of version 4
  and IHL 5, TOS 0, a total length of \<open>IP_HDR_SIZE_MIN\<close> plus the payload length, offset
  0 and TTL 255, and the checksum over its 20 bytes, the stored sum included, is zero.
  The header also carries the id drawn from the counter, the protocol and both
  addresses, and the payload follows it.  \<open>cksum16\<close> is the one modelled from the spec.
\<close>

theorem ip_output_emitted_header:
  assumes out: "ip_output protocol dat src dst s = Done (r, s', frames)"
      and f: "f \<in> set frames"
      and len: "IP_HDR_SIZE_MIN + length dat < 2 ^ 64"
  shows "drop_bit 4 (hdr_vhl (ip_hdr_decode (tx_data f))) = 4 \<and>
         hdr_vhl (ip_hdr_decode (tx_data f)) AND 0x0f = 5 \<and>
         hdr_tos (ip_hdr_decode (tx_data f)) = 0 \<and>
         unat (ntoh16 (hdr_total (ip_hdr_decode (tx_data f)))) = IP_HDR_SIZE_MIN + length dat \<and>
         ntoh16 (hdr_offset (ip_hdr_decode (tx_data f))) = 0 \<and>
         hdr_ttl (ip_hdr_decode (tx_data f)) = 255 \<and>
         cksum16 (tx_data f) 20 0 = 0 \<and>
         ntoh16 (hdr_id (ip_hdr_decode (tx_data f))) = ip_id s \<and>
         hdr_protocol (ip_hdr_decode (tx_data f)) = protocol \<and>
         hdr_src (ip_hdr_decode (tx_data f)) = src \<and>
         hdr_dst (ip_hdr_decode (tx_data f)) = dst \<and>
         drop 20 (tx_data f) = dat"
proof -
  have ne: "\<not> (src = IP_ADDR_ANY \<or> ip_iface_select src s = None)"
  proof
    assume "src = IP_ADDR_ANY \<or> ip_iface_select src s = None"
    from ip_output_early[OF this, of protocol dat dst] out f show False by simp
  qed
  then obtain iface where src: "src \<noteq> IP_ADDR_ANY" and sel: "ip_iface_select src s = Some iface"
    by auto
  from ip_iface_select_Some[OF sel] have u: "unicast iface = src" by simp
  from out src sel u obtain dev where dev: "dev_heap s (iface_dev iface) = Some dev"
    by (cases "dev_heap s (iface_dev iface)") (auto simp: ip_output_def)
  have fits: "\<not> unat (mtu dev) < IP_HDR_SIZE_MIN + length dat"
  proof
    assume "unat (mtu dev) < IP_HDR_SIZE_MIN + length dat"
    from ip_output_too_long[OF src sel dev len this, of protocol dst] out f show False by simp
  qed
  from ip_output_sent[OF src sel dev len fits, of protocol dst] out f
  obtain h where h: "tx_data f = ip_hdr_encode h @ dat" "hdr_vhl h = 0x45" "hdr_tos h = 0"
      "hdr_total h = hton16 (20 + word_of_nat (length dat))"
      "hdr_id h = hton16 (ip_id s)" "hdr_offset h = hton16 0" "hdr_ttl h = 0xff"
      "hdr_protocol h = protocol" "hdr_src h = src" "hdr_dst h = dst"
      "cksum16 (ip_hdr_encode h @ dat) 20 0 = 0"
    by auto
  from fits have "20 + length dat \<le> unat (mtu dev)" by (simp add: IP_HDR_SIZE_MIN_def)
  from unat_total[OF this] have t: "unat (20 + word_of_nat (length dat) :: 16 word) =
      IP_HDR_SIZE_MIN + length dat" by (simp add: IP_HDR_SIZE_MIN_def)
  from h t show ?thesis
    by (simp add: ip_hdr_decode_encode ntoh16_hton16 length_ip_hdr_encode)
qed


theorem ip_output_emitted_header_witness:
  "\<exists>r s' frames f.
      ip_output 1 [0x41, 0x41] 0x0200000a 0xff00000a example_up_stack = Done (r, s', frames) \<and>
      f \<in> set frames \<and>
      drop_bit 4 (hdr_vhl (ip_hdr_decode (tx_data f))) = 4 \<and>
      hdr_vhl (ip_hdr_decode (tx_data f)) AND 0x0f = 5 \<and>
      hdr_tos (ip_hdr_decode (tx_data f)) = 0 \<and>
      unat (ntoh16 (hdr_total (ip_hdr_decode (tx_data f)))) = 22 \<and>
      ntoh16 (hdr_offset (ip_hdr_decode (tx_data f))) = 0 \<and>
      hdr_ttl (ip_hdr_decode (tx_data f)) = 255 \<and>
      cksum16 (tx_data f) 20 0 = 0"
proof -
  have len: "IP_HDR_SIZE_MIN + length [0x41, 0x41 :: byte] < 2 ^ 64"
    by (simp add: IP_HDR_SIZE_MIN_def)
  have sel: "ip_iface_select 0x0200000a example_up_stack = Some example_iface"
    by (simp add: ip_iface_select_def example_up_stack_def example_iface_def)
  have dev: "dev_heap example_up_stack (iface_dev example_iface) = Some example_up_dev"
    by (simp add: example_up_stack_def example_iface_def)
  have ok: "\<not> unat (mtu example_up_dev) < IP_HDR_SIZE_MIN + length [0x41, 0x41 :: byte]"
    by (simp add: example_up_dev_def example_dev_def IP_HDR_SIZE_MIN_def)
  have tx: "\<not> transmission_fails example_iface example_up_dev 0xff00000a frames" for frames
    by (simp add: transmission_fails_def example_up_dev_def example_dev_def
        NET_DEVICE_FLAG_NEED_ARP_def NET_DEVICE_FLAG_UP_def)
  have any: "(0x0200000a :: 32 word) \<noteq> IP_ADDR_ANY" by (simp add: IP_ADDR_ANY_def)
  from ip_output_sent[OF any sel dev len ok, of 1 "0xff00000a"] tx
  obtain r frames where
    out: "ip_output 1 [0x41, 0x41] 0x0200000a 0xff00000a example_up_stack =
            Done (r, example_up_stack\<lparr>ip_id := ip_id example_up_stack + 1\<rparr>, frames)"
    and "frames \<noteq> []"
    by blast
  then obtain f where f: "f \<in> set frames" by (cases frames) auto
  from ip_output_emitted_header[OF out f len] out f len show ?thesis
    by (simp add: IP_HDR_SIZE_MIN_def) blast
qed

text \<open>
  C4.  On a device with an attached IP interface, a datagram that \<open>ip_input\<close> does not
  drop at its length, version, checksum or fragment checks is accepted if its
  destination is the interface's unicast address, the interface's broadcast address or
  255.255.255.255, and is dropped otherwise.
\<close>

theorem ip_input_destination_filter:
  assumes iface: "net_device_get_iface (dev_ifaces dev) NET_IFACE_FAMILY_IP = Some iface"
      and pass: "ip_input dat dev \<notin> {Too_Short, Invalid_Version, Shorter_Than_IHL,
                   Shorter_Than_Total, Checksum_Error, Fragment}"
  shows "ip_input dat dev =
     (if hdr_dst (ip_hdr_decode dat) = unicast iface \<or>
         hdr_dst (ip_hdr_decode dat) = broadcast iface \<or>
         hdr_dst (ip_hdr_decode dat) = IP_ADDR_BROADCAST
      then Accepted iface (hdr_protocol (ip_hdr_decode dat)) (ntoh16 (hdr_total (ip_hdr_decode dat)))
      else Not_For_Us)"
  using assms by (auto simp: ip_input_def Let_def split: if_splits)


theorem ip_input_destination_filter_witness:
  "net_device_get_iface (dev_ifaces example_up_dev) NET_IFACE_FAMILY_IP = Some example_iface \<and>
   ip_input [0x45, 0, 0, 0x14, 0, 0, 0, 0, 0xff, 1, 0xA6, 0xE9, 10, 0, 0, 1, 10, 0, 0, 255]
      example_up_dev = Accepted example_iface 1 20 \<and>
   ip_input [0x45, 0, 0, 0x14, 0, 0, 0, 0, 0xff, 1, 0xA6, 0xE7, 10, 0, 0, 1, 10, 0, 1, 1]
      example_up_dev = Not_For_Us"
proof -
  let ?a = "[0x45, 0, 0, 0x14, 0, 0, 0, 0, 0xff, 1, 0xA6, 0xE9, 10, 0, 0, 1, 10, 0, 0, 255 :: byte]"
  let ?b = "[0x45, 0, 0, 0x14, 0, 0, 0, 0, 0xff, 1, 0xA6, 0xE7, 10, 0, 0, 1, 10, 0, 1, 1 :: byte]"
  have i: "net_device_get_iface (dev_ifaces example_up_dev) NET_IFACE_FAMILY_IP =
      Some example_iface"
    by (simp add: example_up_dev_def example_iface_def NET_IFACE_FAMILY_IP_def)
  have pa: "ip_input ?a example_up_dev \<notin> {Too_Short, Invalid_Version, Shorter_Than_IHL,
      Shorter_Than_Total, Checksum_Error, Fragment}" by code_simp
  have pb: "ip_input ?b example_up_dev \<notin> {Too_Short, Invalid_Version, Shorter_Than_IHL,
      Shorter_Than_Total, Checksum_Error, Fragment}" by code_simp
  have da: "hdr_dst (ip_hdr_decode ?a) = 0xff00000a" "hdr_protocol (ip_hdr_decode ?a) = 1"
    "ntoh16 (hdr_total (ip_hdr_decode ?a)) = 20"
    by (simp_all add: ip_hdr_decode_def get32_def get16_def ntoh16_def)
  have db: "hdr_dst (ip_hdr_decode ?b) = 0x0101000a"
    by (simp add: ip_hdr_decode_def get32_def)
  from ip_input_destination_filter[OF i pa] da
  have a: "ip_input ?a example_up_dev = Accepted example_iface 1 20"
    by (simp add: example_iface_def)
  from ip_input_destination_filter[OF i pb] db
  have b: "ip_input ?b example_up_dev = Not_For_Us"
    by (simp add: example_iface_def IP_ADDR_BROADCAST_def)
  from i a b show ?thesis by simp
qed

end
